theory Spec2Isabelle
  imports Complex_Main "HOL-Library.AList" "HOL-Library.Multiset" "HOL-Library.Product_Lexorder"
begin

section \<open>Values of the host language\<close>

text \<open>
  Whatever a \<^verbatim>\<open>catch\<close> clause of the plugin can receive (\<^verbatim>\<open>error: unknown\<close>):
  an \<^verbatim>\<open>APIError\<close> with its status and message, any other object that carries a
  \<^verbatim>\<open>message\<close> property (an \<^verbatim>\<open>Error\<close>, a raw driver error), or a thrown value
  without one.
\<close>

datatype js_error = APIError string string | ErrorObject string | NonObject

text \<open>
  The loosely typed trees of the plugin (\<^verbatim>\<open>TemplateValue\<close>, \<^verbatim>\<open>Record<string, unknown>\<close>):
  an object is the list of its entries in property order, the order in which
  \<^verbatim>\<open>Object.entries\<close>, \<^verbatim>\<open>Object.keys\<close> and \<^verbatim>\<open>Object.values\<close> iterate. Numbers are only
  copied by the code below, never computed with.
\<close>

datatype jsvalue =
    JNull | JUndefined | JBool bool | JNum int | JStr string
  | JArr "jsvalue list" | JObj "(string \<times> jsvalue) list"

type_synonym jsobject = "(string \<times> jsvalue) list"

definition objectValues :: "(string \<times> 'v) list \<Rightarrow> 'v list" where
  "objectValues obj = map snd obj"

definition objectKeys :: "(string \<times> 'v) list \<Rightarrow> string list" where
  "objectKeys obj = map fst obj"

text \<open>
  The assignment \<^verbatim>\<open>obj[key] = v\<close> on a plain object: a key the object has keeps its
  place, a new key goes last. The key \<^verbatim>\<open>__proto__\<close> is the accessor inherited from
  \<^verbatim>\<open>Object.prototype\<close>, and assigning to it creates no property.
\<close>

definition setProperty :: "string \<Rightarrow> jsvalue \<Rightarrow> jsobject \<Rightarrow> jsobject" where
  "setProperty key v obj = (if key = ''__proto__'' then obj else AList.update key v obj)"

text \<open>\<^verbatim>\<open>String.prototype.includes\<close>: the argument occurs at some position.\<close>

fun strIncludes :: "string \<Rightarrow> string \<Rightarrow> bool" where
  "strIncludes [] sub = (sub = [])"
| "strIncludes (c # cs) sub = (take (length sub) (c # cs) = sub \<or> strIncludes cs sub)"

text \<open>
  A string is the list of its UTF-16 code units, and a character of the character type
  is a code unit below 256, so the strings here are those of the Latin-1 range. On that
  range the white space that \<^verbatim>\<open>String.prototype.trim\<close> strips is TAB, LF, VT, FF, CR,
  the space and the no-break space U+00A0, and \<^verbatim>\<open>toLowerCase\<close> moves the capitals
  \<^verbatim>\<open>A\<close> to \<^verbatim>\<open>Z\<close> and U+00C0 to U+00DE, the multiplication sign U+00D7 apart, up by 32.
\<close>

definition isWhiteSpace :: "char \<Rightarrow> bool" where
  "isWhiteSpace c =
     (c \<in> {CHR 0x09, CHR 0x0A, CHR 0x0B, CHR 0x0C, CHR 0x0D, CHR 0x20, CHR 0xA0})"

definition trim :: "string \<Rightarrow> string" where
  "trim s = rev (dropWhile isWhiteSpace (rev (dropWhile isWhiteSpace s)))"

definition isUpperCase :: "char \<Rightarrow> bool" where
  "isUpperCase c =
     (let n = (of_char c :: nat)
      in (65 \<le> n \<and> n \<le> 90) \<or> (192 \<le> n \<and> n \<le> 222 \<and> n \<noteq> 215))"

definition toLowerCase :: "string \<Rightarrow> string" where
  "toLowerCase s = map (\<lambda>c. if isUpperCase c then char_of (of_char c + (32 :: nat)) else c) s"

section \<open>Chunker (utils.ts, chunkArray)\<close>

text \<open>
  The chunk size is a \<^verbatim>\<open>number\<close> that nothing checks: it may be fractional, infinite
  or \<^verbatim>\<open>NaN\<close>, and so may the loop counter. A finite number is a rational here, so the
  sums of the counter are exact; they are the ones double-precision arithmetic gives for
  an integral chunk size, and for a fractional one such as 0.5 whose multiples are
  doubles.
\<close>

datatype jsnumber = Finite rat | PosInfinity | NegInfinity | NaN

text \<open>
  The operators \<^verbatim>\<open><\<close>, \<^verbatim>\<open><=\<close> and \<^verbatim>\<open>+\<close> on numbers: a comparison with \<^verbatim>\<open>NaN\<close> is
  false, a sum with \<^verbatim>\<open>NaN\<close> and the sum of the two infinities are \<^verbatim>\<open>NaN\<close>.
\<close>

fun numLess :: "jsnumber \<Rightarrow> jsnumber \<Rightarrow> bool" where
  "numLess (Finite x) (Finite y) = (x < y)"
| "numLess (Finite x) PosInfinity = True"
| "numLess NegInfinity (Finite y) = True"
| "numLess NegInfinity PosInfinity = True"
| "numLess x y = False"

fun numLessEq :: "jsnumber \<Rightarrow> jsnumber \<Rightarrow> bool" where
  "numLessEq NaN y = False"
| "numLessEq x NaN = False"
| "numLessEq (Finite x) (Finite y) = (x \<le> y)"
| "numLessEq x PosInfinity = True"
| "numLessEq NegInfinity y = True"
| "numLessEq x y = False"

fun numAdd :: "jsnumber \<Rightarrow> jsnumber \<Rightarrow> jsnumber" where
  "numAdd (Finite x) (Finite y) = Finite (x + y)"
| "numAdd NaN y = NaN"
| "numAdd x NaN = NaN"
| "numAdd PosInfinity NegInfinity = NaN"
| "numAdd NegInfinity PosInfinity = NaN"
| "numAdd PosInfinity y = PosInfinity"
| "numAdd NegInfinity y = NegInfinity"
| "numAdd (Finite x) y = y"

text \<open>
  \<^verbatim>\<open>Array.prototype.slice(start, end)\<close> truncates its arguments to integers
  (\<open>ToIntegerOrInfinity\<close>, which sends \<^verbatim>\<open>NaN\<close> to 0); a negative index counts from
  the end, and both indices are clamped to the array.
\<close>

datatype integerOrInfinity = Integral int | PlusInfinity | MinusInfinity

fun toIntegerOrInfinity :: "jsnumber \<Rightarrow> integerOrInfinity" where
  "toIntegerOrInfinity NaN = Integral 0"
| "toIntegerOrInfinity PosInfinity = PlusInfinity"
| "toIntegerOrInfinity NegInfinity = MinusInfinity"
| "toIntegerOrInfinity (Finite q) = Integral (if q < 0 then \<lceil>q\<rceil> else \<lfloor>q\<rfloor>)"

fun relativeIndex :: "int \<Rightarrow> integerOrInfinity \<Rightarrow> int" where
  "relativeIndex len MinusInfinity = 0"
| "relativeIndex len PlusInfinity = len"
| "relativeIndex len (Integral r) = (if r < 0 then max (len + r) 0 else min r len)"

definition slice :: "'a list \<Rightarrow> jsnumber \<Rightarrow> jsnumber \<Rightarrow> 'a list" where
  "slice xs start end' =
     (let len = int (length xs);
          k = relativeIndex len (toIntegerOrInfinity start);
          final = relativeIndex len (toIntegerOrInfinity end')
      in take (nat (final - k)) (drop (nat k) xs))"

text \<open>
  The loop \<^verbatim>\<open>for (let i = 0; i < array.length; i += chunkSize) chunks.push(array.slice(i, i + chunkSize))\<close>.
  Nothing in the loop itself makes \<^verbatim>\<open>i\<close> grow, so it is a partial function:
  \<open>None\<close> is the loop that never ends.
\<close>

partial_function (option) chunkLoop ::
  "'a list \<Rightarrow> jsnumber \<Rightarrow> jsnumber \<Rightarrow> 'a list list \<Rightarrow> 'a list list option" where
  "chunkLoop array chunkSize i chunks =
     (if numLess i (Finite (of_nat (length array)))
      then chunkLoop array chunkSize (numAdd i chunkSize)
             (chunks @ [slice array i (numAdd i chunkSize)])
      else Some chunks)"

declare chunkLoop.simps [code]

definition chunkArray :: "'a list \<Rightarrow> jsnumber \<Rightarrow> (js_error + 'a list list) option" where
  "chunkArray array chunkSize =
     (if length array = 0 then Some (Inr [])
      else if numLessEq chunkSize (Finite 0)
      then Some (Inl (ErrorObject ''Chunk size must be greater than 0''))
      else map_option Inr (chunkLoop array chunkSize (Finite 0) []))"

section \<open>Flattening of grouped records (utils.ts, flattenGroupedRecords)\<close>

text \<open>The body of the inner loop: the state is the \<^verbatim>\<open>seen\<close> set and the \<^verbatim>\<open>result\<close> array.\<close>

definition flattenStep :: "('a \<Rightarrow> string) \<Rightarrow> 'a \<Rightarrow> string set \<times> 'a list \<Rightarrow> string set \<times> 'a list" where
  "flattenStep getId item st =
     (case st of (seen, result) \<Rightarrow>
        if getId item \<notin> seen then (insert (getId item) seen, result @ [item]) else (seen, result))"

definition flattenGroupedRecords :: "('a \<Rightarrow> string) \<Rightarrow> (string \<times> 'a list) list \<Rightarrow> 'a list" where
  "flattenGroupedRecords getId recordOfArrays =
     snd (fold (\<lambda>items st. fold (flattenStep getId) items st) (objectValues recordOfArrays) ({}, []))"

text \<open>What one pass over an item list adds to \<^verbatim>\<open>result\<close>, given the ids seen so far.\<close>

fun keptItems :: "('a \<Rightarrow> string) \<Rightarrow> string set \<Rightarrow> 'a list \<Rightarrow> 'a list" where
  "keptItems getId seen [] = []"
| "keptItems getId seen (x # xs) =
     (if getId x \<in> seen then keptItems getId seen xs
      else x # keptItems getId (insert (getId x) seen) xs)"

section \<open>The store adapter\<close>

text \<open>
  The plugin reaches the database through the host framework's \<^verbatim>\<open>Adapter\<close>
  (\<^verbatim>\<open>create\<close>, \<^verbatim>\<open>delete\<close>, \<^verbatim>\<open>deleteMany\<close>, and \<^verbatim>\<open>transaction\<close> when the adapter has
  one). A row is the list of its fields, a table the list of its rows, and a
  \<^verbatim>\<open>where\<close> clause compares one field with a value (the default operator) or with a
  list of values (\<^verbatim>\<open>operator: "in"\<close>); the clauses of one call are joined by AND.

  Any call may fail. The field \<open>faults\<close> is the schedule of what the coming calls do:
  \<open>Some e\<close> makes the next call throw \<open>e\<close> and change nothing, \<open>None\<close> (or an exhausted
  schedule) lets it succeed.
\<close>

type_synonym row = "(string \<times> string) list"

datatype whereClause = WhereEq string string | WhereIn string "string list"

record store =
  tables :: "string \<Rightarrow> row list"
  faults :: "js_error option list"

fun rowMatches :: "row \<Rightarrow> whereClause \<Rightarrow> bool" where
  "rowMatches r (WhereEq field v) = (map_of r field = Some v)"
| "rowMatches r (WhereIn field vs) =
     (case map_of r field of Some v \<Rightarrow> v \<in> set vs | None \<Rightarrow> False)"

definition nextFault :: "store \<Rightarrow> js_error option \<times> store" where
  "nextFault st =
     (case faults st of [] \<Rightarrow> (None, st) | f # fs \<Rightarrow> (f, st\<lparr>faults := fs\<rparr>))"

definition adapterCreate :: "string \<Rightarrow> row \<Rightarrow> store \<Rightarrow> (js_error + row) \<times> store" where
  "adapterCreate model data st =
     (case nextFault st of
        (Some error, st') \<Rightarrow> (Inl error, st')
      | (None, st') \<Rightarrow> (Inr data, st'\<lparr>tables := (tables st')(model := tables st' model @ [data])\<rparr>))"

text \<open>\<^verbatim>\<open>deleteMany\<close> removes the rows that match and returns how many they were.\<close>

definition adapterDeleteMany :: "string \<Rightarrow> whereClause list \<Rightarrow> store \<Rightarrow> (js_error + nat) \<times> store" where
  "adapterDeleteMany model wh st =
     (case nextFault st of
        (Some error, st') \<Rightarrow> (Inl error, st')
      | (None, st') \<Rightarrow>
          (Inr (length (filter (\<lambda>r. list_all (rowMatches r) wh) (tables st' model))),
           st'\<lparr>tables := (tables st')(model := filter (\<lambda>r. \<not> list_all (rowMatches r) wh) (tables st' model))\<rparr>))"

text \<open>\<^verbatim>\<open>delete\<close> removes the rows that match and returns nothing (\<^verbatim>\<open>Promise<void>\<close>).\<close>

definition adapterDelete :: "string \<Rightarrow> whereClause list \<Rightarrow> store \<Rightarrow> (js_error + unit) \<times> store" where
  "adapterDelete model wh st =
     (case adapterDeleteMany model wh st of
        (Inl error, st') \<Rightarrow> (Inl error, st')
      | (Inr n, st') \<Rightarrow> (Inr (), st'))"

text \<open>A transaction that throws leaves the tables as they were before it.\<close>

definition transaction :: "(store \<Rightarrow> (js_error + 'a) \<times> store) \<Rightarrow> store \<Rightarrow> (js_error + 'a) \<times> store" where
  "transaction fn st =
     (case fn st of
        (Inl error, st') \<Rightarrow> (Inl error, st'\<lparr>tables := tables st\<rparr>)
      | (Inr v, st') \<Rightarrow> (Inr v, st'))"

text \<open>\<^verbatim>\<open>await\<close> one call, then go on with its result; a throw ends the sequence.\<close>

definition andThen ::
  "(store \<Rightarrow> (js_error + 'a) \<times> store) \<Rightarrow> ('a \<Rightarrow> store \<Rightarrow> (js_error + 'b) \<times> store)
     \<Rightarrow> store \<Rightarrow> (js_error + 'b) \<times> store" where
  "andThen op k st = (case op st of (Inl error, st') \<Rightarrow> (Inl error, st') | (Inr v, st') \<Rightarrow> k v st')"

section \<open>Idempotent junction assignment (utils.ts)\<close>

fun isDuplicateKeyError :: "js_error \<Rightarrow> bool" where
  "isDuplicateKeyError (APIError status message) =
     (status = ''CONFLICT''
      \<or> strIncludes message ''duplicate''
      \<or> strIncludes message ''unique''
      \<or> strIncludes message ''UNIQUE constraint failed''
      \<or> strIncludes message ''duplicate key value'')"
| "isDuplicateKeyError (ErrorObject msg) =
     (let message = toLowerCase msg
      in strIncludes message ''duplicate''
         \<or> strIncludes message ''unique''
         \<or> strIncludes message ''constraint''
         \<or> strIncludes message ''already exists'')"
| "isDuplicateKeyError NonObject = False"

text \<open>
  \<open>hasTransaction\<close> is \<^verbatim>\<open>"transaction" in adapter\<close>. Both branches run the same
  \<^verbatim>\<open>try { create } catch\<close>, the first one inside a transaction.
\<close>

definition handleIdempotentJunctionAssignment ::
  "bool \<Rightarrow> string \<Rightarrow> row \<Rightarrow> store \<Rightarrow> (js_error + unit) \<times> store" where
  "handleIdempotentJunctionAssignment hasTransaction model data st =
     (let attempt = (\<lambda>tx. case adapterCreate model data tx of
                            (Inr created, tx') \<Rightarrow> (Inr (), tx')
                          | (Inl error, tx') \<Rightarrow>
                              if isDuplicateKeyError error then (Inr (), tx') else (Inl error, tx'))
      in if hasTransaction then transaction attempt st else attempt st)"

section \<open>Cascading deletion (adapter/permission-adapter.ts)\<close>

definition CONSTRAINT_VIOLATION :: string where
  "CONSTRAINT_VIOLATION = ''Database constraint violation''"

definition DATABASE_ERROR :: string where
  "DATABASE_ERROR = ''Database operation failed''"

text \<open>The \<^verbatim>\<open>catch\<close> clause shared by \<^verbatim>\<open>batchDeletePermissions\<close> and \<^verbatim>\<open>deletePermission\<close>.\<close>

definition catchDelete :: "(js_error + 'a) \<times> store \<Rightarrow> (js_error + 'a) \<times> store" where
  "catchDelete r =
     (case r of
        (Inl error, st') \<Rightarrow>
          (Inl (if isDuplicateKeyError error then APIError ''CONFLICT'' CONSTRAINT_VIOLATION
                else APIError ''INTERNAL_SERVER_ERROR'' DATABASE_ERROR), st')
      | ok \<Rightarrow> ok)"

text \<open>
  The four awaited calls of \<^verbatim>\<open>batchDeletePermissions\<close>, the same in both branches;
  \<^verbatim>\<open>typeof result === "number" ? result : 0\<close> is the count \<^verbatim>\<open>deleteMany\<close> returned.
\<close>

definition batchDeleteSteps :: "string list \<Rightarrow> store \<Rightarrow> (js_error + nat) \<times> store" where
  "batchDeleteSteps ids =
     andThen (adapterDeleteMany ''userPermission'' [WhereIn ''permissionId'' ids]) (\<lambda>_.
     andThen (adapterDeleteMany ''memberPermission'' [WhereIn ''permissionId'' ids]) (\<lambda>_.
     andThen (adapterDeleteMany ''permissionPermissionSet'' [WhereIn ''permissionId'' ids]) (\<lambda>_.
     andThen (adapterDeleteMany ''permission'' [WhereIn ''id'' ids]) (\<lambda>result st. (Inr result, st)))))"

definition batchDeletePermissions :: "bool \<Rightarrow> string list \<Rightarrow> store \<Rightarrow> (js_error + nat) \<times> store" where
  "batchDeletePermissions hasTransaction ids st =
     (if length ids = 0 then (Inr 0, st)
      else catchDelete (if hasTransaction then transaction (batchDeleteSteps ids) st
                        else batchDeleteSteps ids st))"

text \<open>
  The four awaited calls of \<^verbatim>\<open>deletePermission\<close>; the result of \<^verbatim>\<open>delete\<close> is
  \<^verbatim>\<open>undefined\<close>, so \<^verbatim>\<open>result !== null && result !== undefined\<close> is false.
\<close>

definition deleteSteps :: "string \<Rightarrow> store \<Rightarrow> (js_error + bool) \<times> store" where
  "deleteSteps permissionId =
     andThen (adapterDeleteMany ''userPermission'' [WhereEq ''permissionId'' permissionId]) (\<lambda>_.
     andThen (adapterDeleteMany ''memberPermission'' [WhereEq ''permissionId'' permissionId]) (\<lambda>_.
     andThen (adapterDeleteMany ''permissionPermissionSet'' [WhereEq ''permissionId'' permissionId]) (\<lambda>_.
     andThen (adapterDelete ''permission'' [WhereEq ''id'' permissionId]) (\<lambda>result st. (Inr False, st)))))"

definition deletePermission :: "bool \<Rightarrow> string \<Rightarrow> store \<Rightarrow> (js_error + bool) \<times> store" where
  "deletePermission hasTransaction permissionId st =
     catchDelete (if hasTransaction then transaction (deleteSteps permissionId) st
                  else deleteSteps permissionId st)"

section \<open>Field-level check (handlers/generic/check-permission.ts)\<close>

text \<open>
  The computation of \<^verbatim>\<open>allowed\<close> in \<^verbatim>\<open>checkPermissionHandler\<close>. \<open>can\<close> is
  \<^verbatim>\<open>ability.can\<close> of the capability library, with the field as optional third argument.
\<close>

definition checkPermissionAllowed ::
  "(string \<Rightarrow> 's \<Rightarrow> string option \<Rightarrow> bool) \<Rightarrow> string \<Rightarrow> 's \<Rightarrow> string list option \<Rightarrow> bool" where
  "checkPermissionAllowed can act subjectInstance requestedFields =
     (if (case requestedFields of Some fs \<Rightarrow> length fs > 0 | None \<Rightarrow> False)
      then list_all (\<lambda>field. can act subjectInstance (Some field)) (the requestedFields)
      else can act subjectInstance None)"

section \<open>Template interpolation (utils.ts)\<close>

definition DISALLOWED_TEMPLATE_VARIABLES :: "string set" where
  "DISALLOWED_TEMPLATE_VARIABLES = {''process.env''}"

definition DANGEROUS_TEMPLATE_KEYS :: "string set" where
  "DANGEROUS_TEMPLATE_KEYS = {''__proto__'', ''constructor'', ''prototype''}"

text \<open>
  The regular expression \<^verbatim>\<open>/\{\{([^}]+)\}\}/g\<close>. \<open>matchHere\<close> matches it at the start of
  a string: two opening braces, the longest non-empty run of characters other than a
  closing brace (the captured group), two closing braces; the run is followed by a
  closing brace or by the end, so no shorter run can match. The result is the group and
  the text after the match. \<open>templateRegexExec\<close> is \<^verbatim>\<open>exec\<close>: the leftmost match.
\<close>

definition matchHere :: "string \<Rightarrow> (string \<times> string) option" where
  "matchHere s =
     (case s of
        c1 # c2 # rest \<Rightarrow>
          if c1 = CHR ''{'' \<and> c2 = CHR ''{'' then
            (let inner = takeWhile (\<lambda>c. c \<noteq> CHR ''}'') rest;
                 after = dropWhile (\<lambda>c. c \<noteq> CHR ''}'') rest
             in if inner \<noteq> [] \<and> take 2 after = ''}}'' then Some (inner, drop 2 after) else None)
          else None
      | _ \<Rightarrow> None)"

fun templateRegexExec :: "string \<Rightarrow> (string \<times> string) option" where
  "templateRegexExec [] = None"
| "templateRegexExec (c # cs) =
     (case matchHere (c # cs) of Some m \<Rightarrow> Some m | None \<Rightarrow> templateRegexExec cs)"

lemma matchHere_shorter:
  assumes "matchHere s = Some (g, rest)"
  shows "length rest < length s"
proof -
  obtain c1 c2 r where s: "s = c1 # c2 # r"
    and rest: "rest = drop 2 (dropWhile (\<lambda>c. c \<noteq> CHR ''}'') r)"
    using assms by (auto simp: matchHere_def Let_def split: list.splits if_splits)
  have "length (dropWhile (\<lambda>c. c \<noteq> CHR ''}'') r) \<le> length r"
    by (rule length_dropWhile_le)
  then show ?thesis using s rest by simp
qed

lemma templateRegexExec_shorter:
  "templateRegexExec s = Some (g, rest) \<Longrightarrow> length rest < length s"
  by (induction s) (auto split: option.splits dest: matchHere_shorter)

text \<open>The three checks of the loop body on one \<^verbatim>\<open>variable\<close>, each pushing its message.\<close>

definition variableErrors :: "string \<Rightarrow> string list" where
  "variableErrors variable =
     (if variable \<in> DISALLOWED_TEMPLATE_VARIABLES
      then [''Unauthorized template variable: '' @ variable] else [])
     @ (if strIncludes variable ''..'' \<or> strIncludes variable ''/'' \<or> strIncludes variable [CHR 0x5C]
        then [''Invalid template variable format: '' @ variable] else [])
     @ (if strIncludes variable ''('' \<or> strIncludes variable '')'' \<or> strIncludes variable ''[''
           \<or> strIncludes variable '']''
        then [''Template variable cannot contain function calls or array access: '' @ variable]
        else [])"

text \<open>
  The \<^verbatim>\<open>while (match !== null)\<close> loop; the next \<^verbatim>\<open>exec\<close> starts where the last match
  ended.
\<close>

function validateLoop :: "string \<Rightarrow> string list \<Rightarrow> string list" where
  "validateLoop s errors =
     (case templateRegexExec s of
        None \<Rightarrow> errors
      | Some (g, rest) \<Rightarrow> validateLoop rest (errors @ variableErrors (trim g)))"
  by pat_completeness auto
termination
  by (relation "measure (\<lambda>(s, errors). length s)") (auto dest: templateRegexExec_shorter)

definition validateTemplateVariables :: "string \<Rightarrow> string list" where
  "validateTemplateVariables template = validateLoop template []"

text \<open>
  \<open>render\<close> is \<^verbatim>\<open>Mustache.render\<close>: it returns a value or throws (\<open>Inl\<close>). The result
  of \<open>secureInterpolateObject\<close> is a sum as well, so that an exception escaping it
  would be a value \<open>Inl\<close>; the \<^verbatim>\<open>map\<close> over an array and the loop over the entries of an
  object pass on what a recursive call throws.
\<close>

fun secureInterpolateObject ::
  "(string \<Rightarrow> jsobject \<Rightarrow> js_error + jsvalue) \<Rightarrow> jsvalue \<Rightarrow> jsobject \<Rightarrow> js_error + jsvalue"
and interpolateItems ::
  "(string \<Rightarrow> jsobject \<Rightarrow> js_error + jsvalue) \<Rightarrow> jsvalue list \<Rightarrow> jsobject \<Rightarrow> js_error + jsvalue list"
and interpolateEntries ::
  "(string \<Rightarrow> jsobject \<Rightarrow> js_error + jsvalue) \<Rightarrow> (string \<times> jsvalue) list \<Rightarrow> jsobject
     \<Rightarrow> jsobject \<Rightarrow> js_error + jsobject"
where
  "secureInterpolateObject render JNull context = Inr JNull"
| "secureInterpolateObject render JUndefined context = Inr JNull"
| "secureInterpolateObject render (JStr v) context =
     (if \<not> strIncludes v ''{{'' then Inr (JStr v)
      else if length (validateTemplateVariables v) > 0 then Inr (JStr v)
      else (case render v context of
              Inr (JStr interpolated) \<Rightarrow> Inr (JStr interpolated)
            | Inr _ \<Rightarrow> Inr (JStr v)
            | Inl error \<Rightarrow> Inr (JStr v)))"
| "secureInterpolateObject render (JArr items) context =
     (case interpolateItems render items context of
        Inl error \<Rightarrow> Inl error | Inr items' \<Rightarrow> Inr (JArr items'))"
| "secureInterpolateObject render (JObj entries) context =
     (case interpolateEntries render entries context [] of
        Inl error \<Rightarrow> Inl error | Inr result \<Rightarrow> Inr (JObj result))"
| "secureInterpolateObject render (JBool b) context = Inr (JBool b)"
| "secureInterpolateObject render (JNum n) context = Inr (JNum n)"
| "interpolateItems render [] context = Inr []"
| "interpolateItems render (item # items) context =
     (case secureInterpolateObject render item context of
        Inl error \<Rightarrow> Inl error
      | Inr item' \<Rightarrow>
          (case interpolateItems render items context of
             Inl error \<Rightarrow> Inl error | Inr items' \<Rightarrow> Inr (item' # items')))"
| "interpolateEntries render [] context result = Inr result"
| "interpolateEntries render ((key, val) # entries) context result =
     (if key \<in> DANGEROUS_TEMPLATE_KEYS then interpolateEntries render entries context result
      else (case secureInterpolateObject render val context of
              Inl error \<Rightarrow> Inl error
            | Inr val' \<Rightarrow> interpolateEntries render entries context (setProperty key val' result)))"

section \<open>Context sanitizer (utils.ts)\<close>

text \<open>\<^verbatim>\<open>typeof v === "string" || typeof v === "number" || typeof v === "boolean" || v === null\<close>\<close>

fun isPrimitiveOrNull :: "jsvalue \<Rightarrow> bool" where
  "isPrimitiveOrNull (JStr _) = True"
| "isPrimitiveOrNull (JNum _) = True"
| "isPrimitiveOrNull (JBool _) = True"
| "isPrimitiveOrNull JNull = True"
| "isPrimitiveOrNull _ = False"

fun typeof :: "jsvalue \<Rightarrow> string" where
  "typeof JNull = ''object''"
| "typeof JUndefined = ''undefined''"
| "typeof (JBool _) = ''boolean''"
| "typeof (JNum _) = ''number''"
| "typeof (JStr _) = ''string''"
| "typeof (JArr _) = ''object''"
| "typeof (JObj _) = ''object''"

text \<open>
  The body of the innermost loop of \<^verbatim>\<open>sanitizeNestedObject\<close>, over the entries of an
  object found inside a nested object: the assignment is under
  \<^verbatim>\<open>if (DANGEROUS_TEMPLATE_KEYS.has(nestedKey))\<close>.
\<close>

definition sanitizeInnerStep :: "string \<times> jsvalue \<Rightarrow> jsobject \<Rightarrow> jsobject" where
  "sanitizeInnerStep entry nestedSanitized =
     (case entry of (nestedKey, nestedValue) \<Rightarrow>
        if nestedKey \<in> DANGEROUS_TEMPLATE_KEYS then
          (if isPrimitiveOrNull nestedValue
           then setProperty nestedKey nestedValue nestedSanitized else nestedSanitized)
        else nestedSanitized)"

text \<open>The body of the outer loop of \<^verbatim>\<open>sanitizeNestedObject\<close>.\<close>

definition sanitizeNestedStep :: "string \<times> jsvalue \<Rightarrow> jsobject \<Rightarrow> jsobject" where
  "sanitizeNestedStep entry sanitized =
     (case entry of (key, v) \<Rightarrow>
        if key \<in> DANGEROUS_TEMPLATE_KEYS then sanitized
        else if isPrimitiveOrNull v then setProperty key v sanitized
        else (case v of
                JObj inner \<Rightarrow> setProperty key (JObj (fold sanitizeInnerStep inner [])) sanitized
              | _ \<Rightarrow> sanitized))"

definition sanitizeNestedObject :: "jsobject \<Rightarrow> jsobject" where
  "sanitizeNestedObject obj = fold sanitizeNestedStep obj []"

record ContextValidation =
  errors :: "string list"
  isValid :: bool
  sanitizedContext :: jsobject

text \<open>
  The body of the loop of \<^verbatim>\<open>validateAndSanitizeContext\<close>; the state is the \<^verbatim>\<open>errors\<close>
  array and the \<^verbatim>\<open>sanitizedContext\<close> object.
\<close>

definition validateStep :: "string \<times> jsvalue \<Rightarrow> string list \<times> jsobject \<Rightarrow> string list \<times> jsobject" where
  "validateStep entry st =
     (case (entry, st) of ((key, v), (errs, sanitized)) \<Rightarrow>
        if key \<in> DANGEROUS_TEMPLATE_KEYS
        then (errs @ [''Dangerous context key: '' @ key], sanitized)
        else (case v of
                JObj obj \<Rightarrow> (errs, setProperty key (JObj (sanitizeNestedObject obj)) sanitized)
              | _ \<Rightarrow>
                  if isPrimitiveOrNull v then (errs, setProperty key v sanitized)
                  else (errs @ [''Invalid context value type for key '' @ key @ '': '' @ typeof v],
                        sanitized)))"

definition validateAndSanitizeContext :: "jsobject \<Rightarrow> ContextValidation" where
  "validateAndSanitizeContext context =
     (case fold validateStep context ([], []) of
        (errs, sanitized) \<Rightarrow>
          \<lparr>errors = errs, isValid = (length errs = 0), sanitizedContext = sanitized\<rparr>)"

section \<open>Canonical rules (validation/shared.ts, caslPermissionSchema)\<close>

text \<open>
  A date is its time value, the milliseconds since the epoch that \<^verbatim>\<open>getTime\<close>
  returns. \<open>fields'\<close> and \<open>id'\<close> are the properties \<^verbatim>\<open>fields\<close> and \<^verbatim>\<open>id\<close>.
\<close>

datatype PermissionSource = user_direct | user_permission_set | member_direct | member_permission_set

record CaslPermission =
  action :: string
  conditions :: "jsobject option"
  createdAt :: int
  expiresAt :: "int option"
  fields' :: "string list option"
  id' :: string
  inverted :: bool
  name :: string
  organizationId :: "string option"
  reason :: "string option"
  source :: PermissionSource
  subject :: string
  updatedAt :: "int option"

text \<open>
  The assignment \<^verbatim>\<open>conditions: interpolatedConditions\<close>: the interpolated value of an
  object is an object (\<open>interpolate_object_is_object\<close> below).
\<close>

fun asConditions :: "jsvalue \<Rightarrow> jsobject option" where
  "asConditions (JObj entries) = Some entries"
| "asConditions _ = None"

definition interpolateConditions ::
  "(string \<Rightarrow> jsobject \<Rightarrow> js_error + jsvalue) \<Rightarrow> CaslPermission \<Rightarrow> jsobject \<Rightarrow> CaslPermission" where
  "interpolateConditions render rule context =
     (case conditions rule of
        None \<Rightarrow> rule
      | Some c \<Rightarrow>
          (case secureInterpolateObject render (JObj c) context of
             Inr interpolatedConditions \<Rightarrow> rule\<lparr>conditions := asConditions interpolatedConditions\<rparr>
           | Inl error \<Rightarrow> rule))"

section \<open>Priority sorter (utils.ts, sortPermissionsByPriority)\<close>

fun sourcePriority :: "PermissionSource \<Rightarrow> int" where
  "sourcePriority member_permission_set = 1"
| "sourcePriority member_direct = 2"
| "sourcePriority user_permission_set = 3"
| "sourcePriority user_direct = 4"

definition getSpecificity :: "CaslPermission \<Rightarrow> int" where
  "getSpecificity p =
     (let specificity = 0;
          specificity = (if (case conditions p of None \<Rightarrow> False
                             | Some c \<Rightarrow> length (objectKeys c) > 0)
                         then specificity + 2 else specificity);
          specificity = (if (case fields' p of None \<Rightarrow> False | Some f \<Rightarrow> length f > 0)
                         then specificity + 1 else specificity)
      in specificity)"

text \<open>\<^verbatim>\<open>p.updatedAt || p.createdAt\<close>: a \<^verbatim>\<open>Date\<close> is an object, so it is truthy when present.\<close>

definition getTimestamp :: "CaslPermission \<Rightarrow> int" where
  "getTimestamp p = (case updatedAt p of Some u \<Rightarrow> u | None \<Rightarrow> createdAt p)"

text \<open>
  The comparison function handed to \<^verbatim>\<open>sort\<close>. Its last step is
  \<^verbatim>\<open>a.id.localeCompare(b.id)\<close>, the collation of the host, which is a parameter here.
\<close>

definition comparePriority :: "(string \<Rightarrow> string \<Rightarrow> int) \<Rightarrow> CaslPermission \<Rightarrow> CaslPermission \<Rightarrow> int" where
  "comparePriority localeCompare a b =
     (let aSourcePriority = sourcePriority (source a);
          bSourcePriority = sourcePriority (source b)
      in if aSourcePriority \<noteq> bSourcePriority then aSourcePriority - bSourcePriority
         else if inverted a \<noteq> inverted b then (if inverted a then 1 else - 1)
         else let aSpecificity = getSpecificity a; bSpecificity = getSpecificity b
              in if aSpecificity \<noteq> bSpecificity then aSpecificity - bSpecificity
                 else let aTimestamp = getTimestamp a; bTimestamp = getTimestamp b
                      in if aTimestamp \<noteq> bTimestamp then aTimestamp - bTimestamp
                         else localeCompare (id' a) (id' b))"

text \<open>
  \<^verbatim>\<open>Array.prototype.sort(comparefn)\<close> is a stable sort: elements that compare equal keep
  their order. It is modelled by insertion from the right, which places an element before
  the first one it does not compare greater than.
\<close>

fun insertSorted :: "('a \<Rightarrow> 'a \<Rightarrow> int) \<Rightarrow> 'a \<Rightarrow> 'a list \<Rightarrow> 'a list" where
  "insertSorted comparefn x [] = [x]"
| "insertSorted comparefn x (y # ys) =
     (if comparefn x y \<le> 0 then x # y # ys else y # insertSorted comparefn x ys)"

definition arraySort :: "('a \<Rightarrow> 'a \<Rightarrow> int) \<Rightarrow> 'a list \<Rightarrow> 'a list" where
  "arraySort comparefn xs = foldr (insertSorted comparefn) xs []"

definition sortPermissionsByPriority ::
  "(string \<Rightarrow> string \<Rightarrow> int) \<Rightarrow> CaslPermission list \<Rightarrow> CaslPermission list" where
  "sortPermissionsByPriority localeCompare permissions =
     arraySort (comparePriority localeCompare) permissions"

text \<open>
  What the language standard asks of a comparison function (a consistent comparator):
  it is a total preorder read off the sign of its result.
\<close>

definition consistentComparator :: "('a \<Rightarrow> 'a \<Rightarrow> int) \<Rightarrow> bool" where
  "consistentComparator cmp \<longleftrightarrow>
     (\<forall>a. cmp a a = 0) \<and> (\<forall>a b. cmp a b < 0 \<longleftrightarrow> 0 < cmp b a)
     \<and> (\<forall>a b c. cmp a b \<le> 0 \<and> cmp b c \<le> 0 \<longrightarrow> cmp a c \<le> 0)"

text \<open>One such collation, used for the examples: comparison by character codes.\<close>

fun lexCompare :: "nat list \<Rightarrow> nat list \<Rightarrow> int" where
  "lexCompare [] [] = 0"
| "lexCompare [] (y # ys) = - 1"
| "lexCompare (x # xs) [] = 1"
| "lexCompare (x # xs) (y # ys) =
     (if x < y then - 1 else if y < x then 1 else lexCompare xs ys)"

definition codeUnitCompare :: "string \<Rightarrow> string \<Rightarrow> int" where
  "codeUnitCompare a b = lexCompare (map of_char a) (map of_char b)"

section \<open>Notions of the specification\<close>

subsection \<open>The priority cascade\<close>

fun sourceRank :: "PermissionSource \<Rightarrow> nat" where
  "sourceRank member_permission_set = 1"
| "sourceRank member_direct = 2"
| "sourceRank user_permission_set = 3"
| "sourceRank user_direct = 4"

definition specificity :: "CaslPermission \<Rightarrow> nat" where
  "specificity p = 2 * of_bool (conditions p \<noteq> None \<and> conditions p \<noteq> Some [])
                   + of_bool (fields' p \<noteq> None \<and> fields' p \<noteq> Some [])"

definition timestamp :: "CaslPermission \<Rightarrow> int" where
  "timestamp p = (if updatedAt p \<noteq> None then the (updatedAt p) else createdAt p)"

text \<open>
  \<open>cascadeLe lc a b\<close>: rule \<open>a\<close> may stand before rule \<open>b\<close>. Each comparison is
  consulted only when the ones before it report equality.
\<close>

definition cascadeLe :: "(string \<Rightarrow> string \<Rightarrow> int) \<Rightarrow> CaslPermission \<Rightarrow> CaslPermission \<Rightarrow> bool" where
  "cascadeLe lc a b \<longleftrightarrow>
     sourceRank (source a) < sourceRank (source b)
     \<or> sourceRank (source a) = sourceRank (source b)
       \<and> ((\<not> inverted a \<and> inverted b)
          \<or> inverted a = inverted b
            \<and> (specificity a < specificity b
               \<or> specificity a = specificity b
                 \<and> (timestamp a < timestamp b
                    \<or> timestamp a = timestamp b \<and> lc (id' a) (id' b) \<le> 0)))"

definition cascadeKey :: "CaslPermission \<Rightarrow> nat \<times> bool \<times> nat \<times> int" where
  "cascadeKey p = (sourceRank (source p), inverted p, specificity p, timestamp p)"

definition sampleRule :: "string \<Rightarrow> string \<Rightarrow> PermissionSource \<Rightarrow> CaslPermission" where
  "sampleRule i n s =
     \<lparr>action = ''read'', conditions = None, createdAt = 1704067200000, expiresAt = None,
      fields' = None, id' = i, inverted = False, name = n, organizationId = None,
      reason = Some [], source = s, subject = ''post'', updatedAt = None\<rparr>"

subsection \<open>The state after a cascade\<close>

definition junctionModels :: "string list" where
  "junctionModels = [''userPermission'', ''memberPermission'', ''permissionPermissionSet'']"

text \<open>
  No row of a junction table refers to one of the ids, and no permission row carries one.
\<close>

definition cascaded :: "string list \<Rightarrow> store \<Rightarrow> bool" where
  "cascaded ids st \<longleftrightarrow>
     (\<forall>m\<in>set junctionModels. \<forall>r\<in>set (tables st m). \<not> rowMatches r (WhereIn ''permissionId'' ids))
     \<and> (\<forall>r\<in>set (tables st ''permission''). \<not> rowMatches r (WhereIn ''id'' ids))"

text \<open>
  The tables without the permissions \<open>ids\<close>: each junction table loses the rows that
  refer to one of them, the permission table the rows that carry one of them, and every
  other row of every table stays, in its place.
\<close>

definition withoutPermissions :: "string list \<Rightarrow> (string \<Rightarrow> row list) \<Rightarrow> (string \<Rightarrow> row list)" where
  "withoutPermissions ids t =
     (\<lambda>m. if m \<in> set junctionModels
          then filter (\<lambda>r. \<not> rowMatches r (WhereIn ''permissionId'' ids)) (t m)
          else if m = ''permission'' then filter (\<lambda>r. \<not> rowMatches r (WhereIn ''id'' ids)) (t m)
          else t m)"

text \<open>The tables after the three junction deletions and the deletion of the parent rows.\<close>

definition afterCascade :: "whereClause \<Rightarrow> whereClause \<Rightarrow> (string \<Rightarrow> row list) \<Rightarrow> (string \<Rightarrow> row list)" where
  "afterCascade wj wp t =
     (let t1 = t(''userPermission'' := filter (\<lambda>r. \<not> rowMatches r wj) (t ''userPermission''));
          t2 = t1(''memberPermission'' := filter (\<lambda>r. \<not> rowMatches r wj) (t1 ''memberPermission''));
          t3 = t2(''permissionPermissionSet'' := filter (\<lambda>r. \<not> rowMatches r wj) (t2 ''permissionPermissionSet''))
      in t3(''permission'' := filter (\<lambda>r. \<not> rowMatches r wp) (t3 ''permission'')))"

text \<open>
  A store with two permissions, assigned and linked, a user in a permission set, and no
  fault scheduled.
\<close>

definition sampleStore :: store where
  "sampleStore =
     \<lparr>tables = (\<lambda>m.
        if m = ''userPermission'' then
          [[(''userId'', ''u1''), (''permissionId'', ''p1'')],
           [(''userId'', ''u1''), (''permissionId'', ''p2'')]]
        else if m = ''memberPermission'' then [[(''memberId'', ''m1''), (''permissionId'', ''p1'')]]
        else if m = ''permissionPermissionSet'' then
          [[(''permissionId'', ''p1''), (''permissionSetId'', ''s1'')]]
        else if m = ''permission'' then [[(''id'', ''p1'')], [(''id'', ''p2'')]]
        else if m = ''userPermissionSet'' then [[(''userId'', ''u1''), (''permissionSetId'', ''s1'')]]
        else []),
      faults = []\<rparr>"

section \<open>Auxiliary facts\<close>

subsection \<open>Chunker\<close>

lemma slice_in_range:
  assumes "0 \<le> i" "i < int (length xs)" "0 < n"
  shows "slice xs (Finite (of_int i)) (Finite (of_int i + of_int n)) = take (nat n) (drop (nat i) xs)"
proof -
  have "toIntegerOrInfinity (Finite (of_int i)) = Integral i"
    "toIntegerOrInfinity (Finite (of_int i + of_int n)) = Integral (i + n)"
    using assms by (simp_all flip: of_int_add)
  then show ?thesis
    using assms by (auto simp: slice_def Let_def min_def max_def take_all)
qed

lemma chunkLoop_returns:
  assumes "0 < n" "0 \<le> i"
  shows "\<exists>cs. chunkLoop a (Finite (of_int n)) (Finite (of_int i)) chunks = Some (chunks @ cs)
           \<and> concat cs = drop (nat i) a
           \<and> (\<forall>c\<in>set cs. c \<noteq> [] \<and> int (length c) \<le> n)
           \<and> (\<forall>c\<in>set (butlast cs). int (length c) = n)"
  using assms
proof (induction "nat (int (length a) - i)" arbitrary: i chunks rule: less_induct)
  case less
  have cond: "numLess (Finite (of_int i)) (Finite (of_nat (length a))) \<longleftrightarrow> i < int (length a)"
    by (metis numLess.simps(1) of_int_less_iff of_int_of_nat_eq)
  have add: "numAdd (Finite (of_int i)) (Finite (of_int n)) = Finite (of_int (i + n))"
    by simp
  show ?case
  proof (cases "i < int (length a)")
    case False
    then have "chunkLoop a (Finite (of_int n)) (Finite (of_int i)) chunks = Some chunks"
      by (subst chunkLoop.simps) (simp only: cond if_False)
    moreover from False less.prems have "drop (nat i) a = []" by simp
    ultimately show ?thesis by (intro exI[of _ "[]"]) simp
  next
    case True
    let ?c = "take (nat n) (drop (nat i) a)"
    have sl: "slice a (Finite (of_int i)) (Finite (of_int (i + n))) = ?c"
      using slice_in_range[of i a n] True less.prems by simp
    have "nat (int (length a) - (i + n)) < nat (int (length a) - i)"
      using True less.prems by linarith
    from less.hyps[OF this, of "chunks @ [?c]"] less.prems
    obtain cs where cs: "chunkLoop a (Finite (of_int n)) (Finite (of_int (i + n))) (chunks @ [?c])
        = Some ((chunks @ [?c]) @ cs)"
      "concat cs = drop (nat (i + n)) a"
      "\<forall>c\<in>set cs. c \<noteq> [] \<and> int (length c) \<le> n"
      "\<forall>c\<in>set (butlast cs). int (length c) = n"
      by auto
    have step: "chunkLoop a (Finite (of_int n)) (Finite (of_int i)) chunks = Some (chunks @ (?c # cs))"
      by (subst chunkLoop.simps) (use True cs(1) in \<open>simp only: cond add sl if_True append_assoc append_Cons append_Nil\<close>)
    have ne: "?c \<noteq> []" using True less.prems by auto
    have le: "int (length ?c) \<le> n" using less.prems by simp
    have cat: "concat (?c # cs) = drop (nat i) a"
    proof -
      have "nat (i + n) = nat n + nat i" using less.prems by linarith
      then have "drop (nat (i + n)) a = drop (nat n) (drop (nat i) a)" by simp
      then show ?thesis using cs(2) by (simp del: drop_drop)
    qed
    have full: "cs \<noteq> [] \<Longrightarrow> int (length ?c) = n"
    proof -
      assume "cs \<noteq> []"
      then obtain c where "c \<in> set cs" by (cases cs) auto
      with cs(3) have "c \<noteq> []" by simp
      with \<open>c \<in> set cs\<close> have "concat cs \<noteq> []" by auto
      with cs(2) have "nat (i + n) < length a" by simp
      then show ?thesis using less.prems by auto
    qed
    show ?thesis
      using step ne le cat full cs(3,4) by (intro exI[of _ "?c # cs"]) auto
  qed
qed

lemma chunkLoop_infinite_size:
  assumes "a \<noteq> []"
  shows "chunkLoop a PosInfinity (Finite 0) [] = Some [a]"
proof -
  have "slice a (Finite 0) PosInfinity = a"
    by (simp add: slice_def Let_def)
  moreover have "numLess (Finite 0) (Finite (of_nat (length a)))"
    using assms by simp
  moreover have "chunkLoop a PosInfinity PosInfinity [a] = Some [a]"
    by (subst chunkLoop.simps) simp
  ultimately show ?thesis
    by (subst chunkLoop.simps) simp
qed

subsection \<open>Flattening\<close>

lemma fold_flattenStep:
  "fold (flattenStep getId) xs (seen, result) =
     (seen \<union> getId ` set xs, result @ keptItems getId seen xs)"
  by (induction xs arbitrary: seen result) (auto simp: flattenStep_def)

lemma flattenGroupedRecords_keptItems:
  "flattenGroupedRecords getId r = keptItems getId {} (concat (objectValues r))"
proof -
  have "fold (\<lambda>items st. fold (flattenStep getId) items st) xss st
          = fold (flattenStep getId) (concat xss) st" for xss st
    by (induction xss arbitrary: st) simp_all
  then show ?thesis
    by (simp add: flattenGroupedRecords_def fold_flattenStep)
qed

lemma keptItems_ids: "getId ` set (keptItems getId seen xs) = getId ` set xs - seen"
  by (induction xs arbitrary: seen) auto

lemma keptItems_distinct: "distinct (map getId (keptItems getId seen xs))"
  by (induction xs arbitrary: seen) (auto simp: keptItems_ids)

lemma keptItems_find_seen:
  "k \<in> seen \<Longrightarrow> find (\<lambda>y. getId y = k) (keptItems getId seen xs) = None"
  by (induction xs arbitrary: seen) auto

lemma keptItems_find:
  "k \<notin> seen \<Longrightarrow>
     find (\<lambda>y. getId y = k) (keptItems getId seen xs) = find (\<lambda>y. getId y = k) xs"
  by (induction xs arbitrary: seen) (auto simp: keptItems_find_seen)

subsection \<open>Template interpolation\<close>

lemma interpolate_total:
  "(\<exists>w. secureInterpolateObject render v ctx = Inr w)"
  "(\<exists>ws. interpolateItems render vs ctx = Inr ws)"
  "(\<exists>r. interpolateEntries render es ctx acc = Inr r)"
proof (induction render v ctx and render vs ctx and render es ctx acc
       rule: secureInterpolateObject_interpolateItems_interpolateEntries.induct)
  case (11 render key val es c acc)
  show ?case
  proof (cases "key \<in> DANGEROUS_TEMPLATE_KEYS")
    case True
    with "11.IH"(1) show ?thesis by simp
  next
    case False
    with "11.IH"(2) obtain val' where v: "secureInterpolateObject render val c = Inr val'"
      by blast
    with "11.IH"(3)[OF False v] False show ?thesis by simp
  qed
qed (auto split: sum.splits jsvalue.splits)

lemma interpolate_object_is_object:
  "\<exists>r. secureInterpolateObject render (JObj es) ctx = Inr (JObj r)"
  using interpolate_total(3)[of render es ctx "[]"] by auto

declare validateLoop.simps [simp del]

lemma secureInterpolateObject_rejected_string:
  "validateTemplateVariables s \<noteq> [] \<Longrightarrow> secureInterpolateObject render (JStr s) ctx = Inr (JStr s)"
  by simp

lemma setProperty_safe:
  "key \<notin> DANGEROUS_TEMPLATE_KEYS \<Longrightarrow> map_of (setProperty key v obj) = (map_of obj)(key \<mapsto> v)"
  by (auto simp: setProperty_def DANGEROUS_TEMPLATE_KEYS_def update_conv')

subsection \<open>Context sanitizer\<close>

lemma setProperty_keys: "fst ` set (setProperty k v obj) \<subseteq> insert k (fst ` set obj)"
  by (auto simp: setProperty_def dom_update)

lemma setProperty_safe_keys:
  "k \<notin> DANGEROUS_TEMPLATE_KEYS \<Longrightarrow> fst ` set acc \<inter> DANGEROUS_TEMPLATE_KEYS = {} \<Longrightarrow>
     fst ` set (setProperty k w acc) \<inter> DANGEROUS_TEMPLATE_KEYS = {}"
  using setProperty_keys[of k w acc] by blast

lemma sanitizeNestedStep_keys:
  "fst ` set acc \<inter> DANGEROUS_TEMPLATE_KEYS = {} \<Longrightarrow>
     fst ` set (sanitizeNestedStep e acc) \<inter> DANGEROUS_TEMPLATE_KEYS = {}"
  by (cases e) (simp add: sanitizeNestedStep_def setProperty_safe_keys split: jsvalue.splits)

lemma sanitizeNestedStep_other:
  "fst e \<noteq> k \<Longrightarrow> map_of (sanitizeNestedStep e acc) k = map_of acc k"
  by (cases e) (auto simp: sanitizeNestedStep_def setProperty_safe split: jsvalue.splits)

lemma fold_sanitizeNestedStep_keys:
  "fst ` set acc \<inter> DANGEROUS_TEMPLATE_KEYS = {} \<Longrightarrow>
     fst ` set (fold sanitizeNestedStep obj acc) \<inter> DANGEROUS_TEMPLATE_KEYS = {}"
  by (induction obj arbitrary: acc) (simp_all add: sanitizeNestedStep_keys)

lemma fold_sanitizeNestedStep_other:
  "k \<notin> fst ` set obj \<Longrightarrow> map_of (fold sanitizeNestedStep obj acc) k = map_of acc k"
  by (induction obj arbitrary: acc) (auto simp: sanitizeNestedStep_other)

lemma fold_sanitizeNestedStep_primitive:
  "distinct (map fst obj) \<Longrightarrow> (k, v) \<in> set obj \<Longrightarrow> k \<notin> DANGEROUS_TEMPLATE_KEYS \<Longrightarrow>
   isPrimitiveOrNull v \<Longrightarrow> map_of (fold sanitizeNestedStep obj acc) k = Some v"
proof (induction obj arbitrary: acc)
  case Nil
  then show ?case by simp
next
  case (Cons e obj)
  show ?case
  proof (cases "e = (k, v)")
    case True
    with Cons.prems have "k \<notin> fst ` set obj" by auto
    moreover from Cons.prems have "sanitizeNestedStep (k, v) acc = setProperty k v acc"
      by (simp add: sanitizeNestedStep_def)
    ultimately show ?thesis using True Cons.prems(3)
      by (simp add: fold_sanitizeNestedStep_other setProperty_safe)
  next
    case False
    with Cons.prems have "(k, v) \<in> set obj" "distinct (map fst obj)" by auto
    with Cons.IH Cons.prems show ?thesis by simp
  qed
qed

lemma validateStep_keys:
  "fst ` set (snd st) \<inter> DANGEROUS_TEMPLATE_KEYS = {} \<Longrightarrow>
     fst ` set (snd (validateStep e st)) \<inter> DANGEROUS_TEMPLATE_KEYS = {}"
  by (cases e; cases st) (simp add: validateStep_def setProperty_safe_keys split: jsvalue.splits)

lemma validateStep_errors:
  "fst st \<noteq> [] \<or> fst e \<in> DANGEROUS_TEMPLATE_KEYS \<Longrightarrow> fst (validateStep e st) \<noteq> []"
  by (cases e; cases st) (auto simp: validateStep_def split: jsvalue.splits)

lemma validateStep_other:
  "fst e \<noteq> k \<Longrightarrow> map_of (snd (validateStep e st)) k = map_of (snd st) k"
  by (cases e; cases st) (auto simp: validateStep_def setProperty_safe split: jsvalue.splits)

lemma validateStep_kept:
  "k \<notin> DANGEROUS_TEMPLATE_KEYS \<Longrightarrow>
     map_of (snd (validateStep (k, v) st)) k =
       (case v of JObj obj \<Rightarrow> Some (JObj (sanitizeNestedObject obj))
        | _ \<Rightarrow> if isPrimitiveOrNull v then Some v else map_of (snd st) k)"
  by (cases st) (auto simp: validateStep_def setProperty_safe split: jsvalue.splits)

lemma fold_validateStep_keys:
  "fst ` set (snd st) \<inter> DANGEROUS_TEMPLATE_KEYS = {} \<Longrightarrow>
     fst ` set (snd (fold validateStep ctx st)) \<inter> DANGEROUS_TEMPLATE_KEYS = {}"
  by (induction ctx arbitrary: st) (simp_all add: validateStep_keys)

lemma fold_validateStep_errors_kept:
  "fst st \<noteq> [] \<Longrightarrow> fst (fold validateStep ctx st) \<noteq> []"
  by (induction ctx arbitrary: st) (simp_all add: validateStep_errors)

lemma fold_validateStep_errors:
  "k \<in> fst ` set ctx \<Longrightarrow> k \<in> DANGEROUS_TEMPLATE_KEYS \<Longrightarrow> fst (fold validateStep ctx st) \<noteq> []"
proof (induction ctx arbitrary: st)
  case Nil
  then show ?case by simp
next
  case (Cons e ctx)
  show ?case
  proof (cases "fst e = k")
    case True
    with Cons.prems(2) have "fst (validateStep e st) \<noteq> []" by (simp add: validateStep_errors)
    then show ?thesis by (simp add: fold_validateStep_errors_kept)
  next
    case False
    with Cons show ?thesis by auto
  qed
qed

lemma fold_validateStep_other:
  "k \<notin> fst ` set ctx \<Longrightarrow> map_of (snd (fold validateStep ctx st)) k = map_of (snd st) k"
  by (induction ctx arbitrary: st) (auto simp: validateStep_other)

lemma fold_validateStep_kept:
  "distinct (map fst ctx) \<Longrightarrow> (k, v) \<in> set ctx \<Longrightarrow> k \<notin> DANGEROUS_TEMPLATE_KEYS \<Longrightarrow>
   isPrimitiveOrNull v \<or> (\<exists>obj. v = JObj obj) \<Longrightarrow>
   map_of (snd (fold validateStep ctx st)) k =
     (case v of JObj obj \<Rightarrow> Some (JObj (sanitizeNestedObject obj)) | _ \<Rightarrow> Some v)"
proof (induction ctx arbitrary: st)
  case Nil
  then show ?case by simp
next
  case (Cons e ctx)
  show ?case
  proof (cases "e = (k, v)")
    case True
    with Cons.prems have "k \<notin> fst ` set ctx" by auto
    with True Cons.prems(3,4) show ?thesis
      by (auto simp: fold_validateStep_other validateStep_kept split: jsvalue.splits)
  next
    case False
    with Cons.prems have "(k, v) \<in> set ctx" "distinct (map fst ctx)" by auto
    with Cons.IH[OF this(2,1)] Cons.prems show ?thesis by simp
  qed
qed

lemma sanitizer_top_levels:
  "fst ` set (sanitizedContext (validateAndSanitizeContext ctx)) \<inter> DANGEROUS_TEMPLATE_KEYS = {}"
  "fst ` set (sanitizeNestedObject obj) \<inter> DANGEROUS_TEMPLATE_KEYS = {}"
  "k \<in> fst ` set ctx \<Longrightarrow> k \<in> DANGEROUS_TEMPLATE_KEYS \<Longrightarrow> \<not> isValid (validateAndSanitizeContext ctx)"
proof -
  have "sanitizedContext (validateAndSanitizeContext ctx) = snd (fold validateStep ctx ([], []))"
    by (simp add: validateAndSanitizeContext_def split: prod.splits)
  then show "fst ` set (sanitizedContext (validateAndSanitizeContext ctx)) \<inter> DANGEROUS_TEMPLATE_KEYS = {}"
    using fold_validateStep_keys[of "([], [])" ctx] by simp
  show "fst ` set (sanitizeNestedObject obj) \<inter> DANGEROUS_TEMPLATE_KEYS = {}"
    using fold_sanitizeNestedStep_keys[of "[]" obj] by (simp add: sanitizeNestedObject_def)
  have "isValid (validateAndSanitizeContext ctx) = (fst (fold validateStep ctx ([], [])) = [])"
    by (simp add: validateAndSanitizeContext_def split: prod.splits)
  then show "k \<in> fst ` set ctx \<Longrightarrow> k \<in> DANGEROUS_TEMPLATE_KEYS \<Longrightarrow> \<not> isValid (validateAndSanitizeContext ctx)"
    using fold_validateStep_errors[of k ctx "([], [])"] by simp
qed

lemma sanitizer_preserves_safe_keys:
  assumes "distinct (map fst ctx)" "(k, v) \<in> set ctx" "k \<notin> DANGEROUS_TEMPLATE_KEYS"
  shows "isPrimitiveOrNull v \<Longrightarrow> map_of (sanitizedContext (validateAndSanitizeContext ctx)) k = Some v"
    and "v = JObj obj \<Longrightarrow>
      map_of (sanitizedContext (validateAndSanitizeContext ctx)) k = Some (JObj (sanitizeNestedObject obj))"
    and "distinct (map fst obj) \<Longrightarrow> (k', v') \<in> set obj \<Longrightarrow> k' \<notin> DANGEROUS_TEMPLATE_KEYS \<Longrightarrow>
      isPrimitiveOrNull v' \<Longrightarrow> map_of (sanitizeNestedObject obj) k' = Some v'"
proof -
  show "isPrimitiveOrNull v \<Longrightarrow> map_of (sanitizedContext (validateAndSanitizeContext ctx)) k = Some v"
    using fold_validateStep_kept[OF assms, of "([], [])"]
    by (cases v) (auto simp: validateAndSanitizeContext_def split: prod.splits)
  show "v = JObj obj \<Longrightarrow>
      map_of (sanitizedContext (validateAndSanitizeContext ctx)) k = Some (JObj (sanitizeNestedObject obj))"
    using fold_validateStep_kept[OF assms, of "([], [])"]
    by (auto simp: validateAndSanitizeContext_def split: prod.splits)
  show "distinct (map fst obj) \<Longrightarrow> (k', v') \<in> set obj \<Longrightarrow> k' \<notin> DANGEROUS_TEMPLATE_KEYS \<Longrightarrow>
      isPrimitiveOrNull v' \<Longrightarrow> map_of (sanitizeNestedObject obj) k' = Some v'"
    by (simp add: sanitizeNestedObject_def fold_sanitizeNestedStep_primitive)
qed


subsection \<open>Sorting\<close>

lemma lexCompare_refl: "lexCompare a a = 0"
  by (induction a) auto

lemma lexCompare_sym: "lexCompare a b < 0 \<longleftrightarrow> 0 < lexCompare b a"
  by (induction a b rule: lexCompare.induct) auto

lemma lexCompare_Cons_le:
  "lexCompare (x # xs) (y # ys) \<le> 0 \<longleftrightarrow> x < y \<or> (x = y \<and> lexCompare xs ys \<le> 0)"
  by auto

lemma lexCompare_trans:
  "lexCompare a b \<le> 0 \<Longrightarrow> lexCompare b c \<le> 0 \<Longrightarrow> lexCompare a c \<le> 0"
proof (induction a b arbitrary: c rule: lexCompare.induct)
  case (4 x xs y ys)
  show ?case
  proof (cases c)
    case Nil
    with "4.prems" show ?thesis by simp
  next
    case (Cons z zs)
    from "4.prems"(1) have xy: "x < y \<or> (x = y \<and> lexCompare xs ys \<le> 0)"
      by (simp only: lexCompare_Cons_le)
    from "4.prems"(2) Cons have yz: "y < z \<or> (y = z \<and> lexCompare ys zs \<le> 0)"
      by (simp only: lexCompare_Cons_le)
    have "x < z \<or> (x = z \<and> lexCompare xs zs \<le> 0)"
    proof (cases "x = y \<and> y = z")
      case True
      with xy yz have "lexCompare xs ys \<le> 0" "lexCompare ys zs \<le> 0" by simp_all
      with "4.IH"[of zs] True show ?thesis by simp
    next
      case False
      with xy yz show ?thesis by auto
    qed
    with Cons show ?thesis by (simp only: lexCompare_Cons_le)
  qed
next
  case 1
  then show ?case by simp
next
  case (2 y ys)
  then show ?case by (cases c) simp_all
next
  case (3 x xs)
  then show ?case by simp
qed

lemma codeUnitCompare_consistent: "consistentComparator codeUnitCompare"
  unfolding consistentComparator_def codeUnitCompare_def
proof (intro conjI allI impI)
  fix a b c :: string
  show "lexCompare (map of_char a) (map of_char a) = 0" by (rule lexCompare_refl)
  show "lexCompare (map of_char a) (map of_char b) < 0
          \<longleftrightarrow> 0 < lexCompare (map of_char b) (map of_char a)"
    by (rule lexCompare_sym)
  assume "lexCompare (map of_char a) (map of_char b) \<le> 0
            \<and> lexCompare (map of_char b) (map of_char c) \<le> 0"
  then show "lexCompare (map of_char a) (map of_char c) \<le> 0"
    using lexCompare_trans by blast
qed

lemma mset_insertSorted: "mset (insertSorted cmp x xs) = add_mset x (mset xs)"
  by (induction xs) auto

lemma mset_arraySort: "mset (arraySort cmp xs) = mset xs"
  by (induction xs) (auto simp: arraySort_def mset_insertSorted)

lemma set_insertSorted: "set (insertSorted cmp x xs) = insert x (set xs)"
  by (induction xs) auto

lemma sorted_insertSorted:
  assumes tot: "\<And>a b. 0 < cmp a b \<Longrightarrow> cmp b a \<le> 0"
    and tr: "\<And>a b c. cmp a b \<le> 0 \<Longrightarrow> cmp b c \<le> 0 \<Longrightarrow> cmp a c \<le> 0"
    and s: "sorted_wrt (\<lambda>a b. cmp a b \<le> 0) xs"
  shows "sorted_wrt (\<lambda>a b. cmp a b \<le> 0) (insertSorted cmp x xs)"
  using s
proof (induction xs)
  case Nil
  then show ?case by simp
next
  case (Cons y ys)
  from Cons.prems have tail: "sorted_wrt (\<lambda>a b. cmp a b \<le> 0) ys"
    and head: "\<forall>z\<in>set ys. cmp y z \<le> 0" by simp_all
  show ?case
  proof (cases "cmp x y \<le> 0")
    case True
    have "\<forall>z\<in>set ys. cmp x z \<le> 0"
      using head tr[OF True] by blast
    with True Cons.prems show ?thesis by simp
  next
    case False
    then have "cmp y x \<le> 0" using tot[of x y] by simp
    with head have "\<forall>z\<in>set (insertSorted cmp x ys). cmp y z \<le> 0"
      by (simp add: set_insertSorted)
    with False Cons.IH[OF tail] show ?thesis by simp
  qed
qed

lemma sorted_arraySort:
  assumes "\<And>a b. 0 < cmp a b \<Longrightarrow> cmp b a \<le> 0"
    and "\<And>a b c. cmp a b \<le> 0 \<Longrightarrow> cmp b c \<le> 0 \<Longrightarrow> cmp a c \<le> 0"
  shows "sorted_wrt (\<lambda>a b. cmp a b \<le> 0) (arraySort cmp xs)"
proof (induction xs)
  case Nil
  show ?case by (simp add: arraySort_def)
next
  case (Cons x xs)
  from sorted_insertSorted[of cmp "arraySort cmp xs" x, OF assms Cons]
  show ?case by (simp add: arraySort_def)
qed

lemma arraySort_sorted_id:
  "sorted_wrt (\<lambda>a b. cmp a b \<le> 0) xs \<Longrightarrow> arraySort cmp xs = xs"
proof (induction xs)
  case Nil
  show ?case by (simp add: arraySort_def)
next
  case (Cons x xs)
  then have "arraySort cmp xs = xs" by simp
  then have "arraySort cmp (x # xs) = insertSorted cmp x xs" by (simp add: arraySort_def)
  with Cons.prems show ?case by (cases xs) auto
qed

lemma sorted_wrt_unique:
  assumes "sorted_wrt le xs" "sorted_wrt le ys" "mset xs = mset ys"
    and "\<And>a b. a \<in> set xs \<Longrightarrow> b \<in> set xs \<Longrightarrow> le a b \<Longrightarrow> le b a \<Longrightarrow> a = b"
  shows "xs = ys"
  using assms
proof (induction xs arbitrary: ys)
  case Nil
  then show ?case by simp
next
  case (Cons x xs)
  then obtain y ys' where ys: "ys = y # ys'" by (cases ys) auto
  have sets: "set (x # xs) = set (y # ys')" using Cons.prems(3) ys by (metis mset_eq_setD)
  have "x = y"
  proof (rule ccontr)
    assume ne: "x \<noteq> y"
    with sets have "x \<in> set ys'" "y \<in> set xs" by auto
    with Cons.prems(1,2) ys have "le y x" "le x y" by auto
    with Cons.prems(4)[of x y] \<open>y \<in> set xs\<close> ne show False by simp
  qed
  with Cons.prems ys have "xs = ys'"
    by (intro Cons.IH) auto
  with \<open>x = y\<close> ys show ?case by simp
qed


lemma getSpecificity_specificity: "getSpecificity p = int (specificity p)"
  by (auto simp: getSpecificity_def specificity_def objectKeys_def split: option.splits)

lemma getTimestamp_timestamp: "getTimestamp p = timestamp p"
  by (auto simp: getTimestamp_def timestamp_def split: option.splits)

lemma sourcePriority_sourceRank: "sourcePriority s = int (sourceRank s)"
  by (cases s) simp_all

lemma cascadeLe_key:
  "cascadeLe lc a b \<longleftrightarrow>
     cascadeKey a < cascadeKey b \<or> cascadeKey a = cascadeKey b \<and> lc (id' a) (id' b) \<le> 0"
  by (auto simp: cascadeLe_def cascadeKey_def)

lemma comparePriority_key:
  "comparePriority lc a b \<le> 0 \<longleftrightarrow>
     cascadeKey a < cascadeKey b \<or> cascadeKey a = cascadeKey b \<and> lc (id' a) (id' b) \<le> 0"
  by (auto simp: comparePriority_def cascadeKey_def Let_def getSpecificity_specificity
        getTimestamp_timestamp sourcePriority_sourceRank)

lemma comparePriority_pos_key:
  "0 < comparePriority lc a b \<longleftrightarrow>
     cascadeKey b < cascadeKey a \<or> cascadeKey a = cascadeKey b \<and> 0 < lc (id' a) (id' b)"
  using comparePriority_key[of lc a b] by (auto simp: not_le[symmetric])


lemma comparePriority_neg_key:
  "comparePriority lc a b < 0 \<longleftrightarrow>
     cascadeKey a < cascadeKey b \<or> cascadeKey a = cascadeKey b \<and> lc (id' a) (id' b) < 0"
  by (auto simp: comparePriority_def cascadeKey_def Let_def getSpecificity_specificity
        getTimestamp_timestamp sourcePriority_sourceRank)

lemma comparePriority_consistent:
  assumes "consistentComparator lc"
  shows "consistentComparator (comparePriority lc)"
proof -
  from assms have r: "\<And>x. lc x x = 0" and sy: "\<And>x y. lc x y < 0 \<longleftrightarrow> 0 < lc y x"
    and tr: "\<And>x y z. lc x y \<le> 0 \<Longrightarrow> lc y z \<le> 0 \<Longrightarrow> lc x z \<le> 0"
    unfolding consistentComparator_def by blast+
  show ?thesis
    unfolding consistentComparator_def
  proof (intro conjI allI impI)
    fix a b c :: CaslPermission
    show "comparePriority lc a a = 0"
      by (simp add: comparePriority_def r)
    show "comparePriority lc a b < 0 \<longleftrightarrow> 0 < comparePriority lc b a"
      unfolding comparePriority_neg_key comparePriority_pos_key using sy by auto
    assume "comparePriority lc a b \<le> 0 \<and> comparePriority lc b c \<le> 0"
    then have ab: "cascadeKey a < cascadeKey b \<or> cascadeKey a = cascadeKey b \<and> lc (id' a) (id' b) \<le> 0"
      and bc: "cascadeKey b < cascadeKey c \<or> cascadeKey b = cascadeKey c \<and> lc (id' b) (id' c) \<le> 0"
      by (simp_all add: comparePriority_key)
    show "comparePriority lc a c \<le> 0"
    proof (cases "cascadeKey a = cascadeKey b \<and> cascadeKey b = cascadeKey c")
      case True
      with ab bc have "lc (id' a) (id' b) \<le> 0" "lc (id' b) (id' c) \<le> 0" by simp_all
      then have "lc (id' a) (id' c) \<le> 0" by (rule tr)
      with True show ?thesis by (simp add: comparePriority_key)
    next
      case False
      with ab bc have "cascadeKey a < cascadeKey c" by (metis less_trans)
      then show ?thesis by (simp add: comparePriority_key)
    qed
  qed
qed

lemma consistent_total:
  "consistentComparator cmp \<Longrightarrow> 0 < cmp a b \<Longrightarrow> cmp b a \<le> 0"
  unfolding consistentComparator_def by (metis less_imp_le)

lemma consistent_trans:
  "consistentComparator cmp \<Longrightarrow> cmp a b \<le> 0 \<Longrightarrow> cmp b c \<le> 0 \<Longrightarrow> cmp a c \<le> 0"
  unfolding consistentComparator_def by blast

lemma consistent_antisym:
  "consistentComparator cmp \<Longrightarrow> cmp a b \<le> 0 \<Longrightarrow> cmp b a \<le> 0 \<Longrightarrow> cmp a b = 0"
  unfolding consistentComparator_def by (metis less_le not_le)

lemma sortPermissionsByPriority_sorted:
  assumes "consistentComparator lc"
  shows "sorted_wrt (\<lambda>a b. comparePriority lc a b \<le> 0) (sortPermissionsByPriority lc ps)"
  unfolding sortPermissionsByPriority_def
  using consistent_total[OF comparePriority_consistent[OF assms]]
        consistent_trans[OF comparePriority_consistent[OF assms]]
  by (rule sorted_arraySort)

subsection \<open>Store\<close>

lemma nextFault_tables: "nextFault st = (f, st') \<Longrightarrow> tables st' = tables st"
  by (auto simp: nextFault_def split: list.splits)

lemma adapterDeleteMany_success:
  assumes "adapterDeleteMany m wh st = (Inr n, st')"
  shows "tables st' = (tables st)(m := filter (\<lambda>r. \<not> list_all (rowMatches r) wh) (tables st m))"
    and "n = length (filter (\<lambda>r. list_all (rowMatches r) wh) (tables st m))"
proof -
  obtain f s1 where nf: "nextFault st = (f, s1)" by (cases "nextFault st")
  with assms have "f = None" by (cases f) (auto simp: adapterDeleteMany_def)
  with nf assms nextFault_tables[OF nf]
  show "tables st' = (tables st)(m := filter (\<lambda>r. \<not> list_all (rowMatches r) wh) (tables st m))"
    and "n = length (filter (\<lambda>r. list_all (rowMatches r) wh) (tables st m))"
    by (auto simp: adapterDeleteMany_def)
qed

lemma adapterDeleteMany_failure:
  assumes "adapterDeleteMany m wh st = (Inl e, st')"
  shows "tables st' = tables st"
proof -
  obtain f s1 where nf: "nextFault st = (f, s1)" by (cases "nextFault st")
  with assms nextFault_tables[OF nf] show ?thesis
    by (cases f) (auto simp: adapterDeleteMany_def)
qed

lemma adapterDelete_success:
  "adapterDelete m wh st = (Inr u, st') \<Longrightarrow>
     tables st' = (tables st)(m := filter (\<lambda>r. \<not> list_all (rowMatches r) wh) (tables st m))"
  by (auto simp: adapterDelete_def split: prod.splits sum.splits dest: adapterDeleteMany_success(1))

lemma adapterDelete_failure:
  "adapterDelete m wh st = (Inl e, st') \<Longrightarrow> tables st' = tables st"
  by (auto simp: adapterDelete_def split: prod.splits sum.splits dest: adapterDeleteMany_failure)

lemma andThen_Inr:
  "andThen op k st = (Inr v, st') \<Longrightarrow> \<exists>u s1. op st = (Inr u, s1) \<and> k u s1 = (Inr v, st')"
  by (auto simp: andThen_def split: prod.splits sum.splits)

lemma andThen_Inl:
  "andThen op k st = (Inl e, st') \<Longrightarrow>
     op st = (Inl e, st') \<or> (\<exists>u s1. op st = (Inr u, s1) \<and> k u s1 = (Inl e, st'))"
  by (auto simp: andThen_def split: prod.splits sum.splits)

lemma rowMatches_eq_in: "rowMatches r (WhereEq f v) = rowMatches r (WhereIn f [v])"
  by (auto split: option.splits)

lemma afterCascade_cascaded:
  assumes "tables st' = afterCascade (WhereIn ''permissionId'' ids) (WhereIn ''id'' ids) t"
  shows "cascaded ids st'"
  using assms by (auto simp: cascaded_def afterCascade_def junctionModels_def Let_def)

lemma afterCascade_permission:
  "afterCascade wj wp t ''permission'' = filter (\<lambda>r. \<not> rowMatches r wp) (t ''permission'')"
  by (simp add: afterCascade_def Let_def)

lemma batchDeleteSteps_success:
  assumes "batchDeleteSteps ids st = (Inr n, st')"
  shows "tables st' = afterCascade (WhereIn ''permissionId'' ids) (WhereIn ''id'' ids) (tables st)"
    and "n = length (filter (\<lambda>r. rowMatches r (WhereIn ''id'' ids)) (tables st ''permission''))"
proof -
  from assms obtain u1 s1 u2 s2 u3 s3 where
    1: "adapterDeleteMany ''userPermission'' [WhereIn ''permissionId'' ids] st = (Inr u1, s1)" and
    2: "adapterDeleteMany ''memberPermission'' [WhereIn ''permissionId'' ids] s1 = (Inr u2, s2)" and
    3: "adapterDeleteMany ''permissionPermissionSet'' [WhereIn ''permissionId'' ids] s2 = (Inr u3, s3)" and
    4: "adapterDeleteMany ''permission'' [WhereIn ''id'' ids] s3 = (Inr n, st')"
    unfolding batchDeleteSteps_def
    by (fastforce dest!: andThen_Inr)
  note t = adapterDeleteMany_success(1)[OF 1] adapterDeleteMany_success(1)[OF 2]
    adapterDeleteMany_success(1)[OF 3] adapterDeleteMany_success(1)[OF 4]
  show "tables st' = afterCascade (WhereIn ''permissionId'' ids) (WhereIn ''id'' ids) (tables st)"
    by (simp add: t afterCascade_def Let_def)
  show "n = length (filter (\<lambda>r. rowMatches r (WhereIn ''id'' ids)) (tables st ''permission''))"
    using adapterDeleteMany_success(2)[OF 4] by (simp add: t)
qed

lemma junction_delete_keeps_permission:
  assumes "adapterDeleteMany m wh s = (Inr u, s')" "m \<in> set junctionModels"
  shows "tables s' ''permission'' = tables s ''permission''"
  using adapterDeleteMany_success(1)[OF assms(1)] assms(2)
  by (auto simp: junctionModels_def)

lemma cascade_failure_keeps_permission:
  assumes "andThen (adapterDeleteMany ''userPermission'' [wj]) (\<lambda>_.
           andThen (adapterDeleteMany ''memberPermission'' [wj]) (\<lambda>_.
           andThen (adapterDeleteMany ''permissionPermissionSet'' [wj]) (\<lambda>_.
           andThen final k))) st = (Inl e, st')"
    and lastFails: "\<And>s s'. final s = (Inl e, s') \<Longrightarrow> tables s' = tables s"
    and kOk: "\<And>u s s'. k u s \<noteq> (Inl e, s')"
  shows "tables st' ''permission'' = tables st ''permission''"
proof -
  let ?d = "\<lambda>m. adapterDeleteMany m [wj]"
  have jm: "''userPermission'' \<in> set junctionModels" "''memberPermission'' \<in> set junctionModels"
    "''permissionPermissionSet'' \<in> set junctionModels"
    by (simp_all add: junctionModels_def)
  from andThen_Inl[OF assms(1)] show ?thesis
  proof
    assume "?d ''userPermission'' st = (Inl e, st')"
    then show ?thesis by (simp add: adapterDeleteMany_failure)
  next
    assume "\<exists>u s1. ?d ''userPermission'' st = (Inr u, s1)
      \<and> andThen (?d ''memberPermission'') (\<lambda>_. andThen (?d ''permissionPermissionSet'') (\<lambda>_. andThen final k)) s1
          = (Inl e, st')"
    then obtain u1 s1 where 1: "?d ''userPermission'' st = (Inr u1, s1)"
      and r1: "andThen (?d ''memberPermission'') (\<lambda>_. andThen (?d ''permissionPermissionSet'') (\<lambda>_. andThen final k)) s1
          = (Inl e, st')" by blast
    note k1 = junction_delete_keeps_permission[OF 1 jm(1)]
    from andThen_Inl[OF r1] show ?thesis
    proof
      assume "?d ''memberPermission'' s1 = (Inl e, st')"
      then show ?thesis using k1 by (simp add: adapterDeleteMany_failure)
    next
      assume "\<exists>u s2. ?d ''memberPermission'' s1 = (Inr u, s2)
        \<and> andThen (?d ''permissionPermissionSet'') (\<lambda>_. andThen final k) s2 = (Inl e, st')"
      then obtain u2 s2 where 2: "?d ''memberPermission'' s1 = (Inr u2, s2)"
        and r2: "andThen (?d ''permissionPermissionSet'') (\<lambda>_. andThen final k) s2 = (Inl e, st')"
        by blast
      note k2 = junction_delete_keeps_permission[OF 2 jm(2)]
      from andThen_Inl[OF r2] show ?thesis
      proof
        assume "?d ''permissionPermissionSet'' s2 = (Inl e, st')"
        then show ?thesis using k1 k2 by (simp add: adapterDeleteMany_failure)
      next
        assume "\<exists>u s3. ?d ''permissionPermissionSet'' s2 = (Inr u, s3) \<and> andThen final k s3 = (Inl e, st')"
        then obtain u3 s3 where 3: "?d ''permissionPermissionSet'' s2 = (Inr u3, s3)"
          and r3: "andThen final k s3 = (Inl e, st')" by blast
        note k3 = junction_delete_keeps_permission[OF 3 jm(3)]
        from andThen_Inl[OF r3] kOk have "final s3 = (Inl e, st')" by blast
        from lastFails[OF this] show ?thesis using k1 k2 k3 by simp
      qed
    qed
  qed
qed

lemma batchDeleteSteps_failure:
  assumes "batchDeleteSteps ids st = (Inl e, st')"
  shows "tables st' ''permission'' = tables st ''permission''"
  using assms unfolding batchDeleteSteps_def
  by (rule cascade_failure_keeps_permission) (simp_all add: adapterDeleteMany_failure)

lemma deleteSteps_failure:
  assumes "deleteSteps pid st = (Inl e, st')"
  shows "tables st' ''permission'' = tables st ''permission''"
  using assms unfolding deleteSteps_def
  by (rule cascade_failure_keeps_permission) (simp_all add: adapterDelete_failure)

lemma deleteSteps_success:
  assumes "deleteSteps pid st = (Inr b, st')"
  shows "tables st' = afterCascade (WhereIn ''permissionId'' [pid]) (WhereIn ''id'' [pid]) (tables st)"
proof -
  from assms obtain u1 s1 u2 s2 u3 s3 u4 where
    1: "adapterDeleteMany ''userPermission'' [WhereEq ''permissionId'' pid] st = (Inr u1, s1)" and
    2: "adapterDeleteMany ''memberPermission'' [WhereEq ''permissionId'' pid] s1 = (Inr u2, s2)" and
    3: "adapterDeleteMany ''permissionPermissionSet'' [WhereEq ''permissionId'' pid] s2 = (Inr u3, s3)" and
    4: "adapterDelete ''permission'' [WhereEq ''id'' pid] s3 = (Inr u4, st')"
    unfolding deleteSteps_def
    by (fastforce dest!: andThen_Inr)
  note t = adapterDeleteMany_success(1)[OF 1] adapterDeleteMany_success(1)[OF 2]
    adapterDeleteMany_success(1)[OF 3] adapterDelete_success[OF 4]
  show ?thesis
    by (simp add: t afterCascade_def Let_def rowMatches_eq_in del: rowMatches.simps)
qed

lemma transaction_Inr: "transaction fn st = (Inr v, st') \<Longrightarrow> fn st = (Inr v, st')"
  by (auto simp: transaction_def split: prod.splits sum.splits)

lemma transaction_Inl: "transaction fn st = (Inl e, st') \<Longrightarrow> tables st' = tables st"
  by (auto simp: transaction_def split: prod.splits sum.splits)

lemma catchDelete_Inr: "catchDelete r = (Inr v, st') \<Longrightarrow> r = (Inr v, st')"
  by (auto simp: catchDelete_def split: prod.splits sum.splits)

lemma catchDelete_Inl: "catchDelete r = (Inl e, st') \<Longrightarrow> \<exists>e'. r = (Inl e', st')"
  by (auto simp: catchDelete_def split: prod.splits sum.splits)

lemma afterCascade_withoutPermissions:
  "afterCascade (WhereIn ''permissionId'' ids) (WhereIn ''id'' ids) t = withoutPermissions ids t"
  by (rule ext) (simp add: afterCascade_def withoutPermissions_def junctionModels_def Let_def)

lemma adapterDeleteMany_no_fault:
  "faults st = [] \<Longrightarrow>
     adapterDeleteMany m wh st =
       (Inr (length (filter (\<lambda>r. list_all (rowMatches r) wh) (tables st m))),
        st\<lparr>tables := (tables st)(m := filter (\<lambda>r. \<not> list_all (rowMatches r) wh) (tables st m))\<rparr>)"
  by (simp add: adapterDeleteMany_def nextFault_def)

lemma batchDeleteSteps_no_fault:
  "faults st = [] \<Longrightarrow> \<exists>n st1. batchDeleteSteps ids st = (Inr n, st1)"
  by (simp add: batchDeleteSteps_def andThen_def adapterDeleteMany_no_fault)

lemma deleteSteps_no_fault:
  "faults st = [] \<Longrightarrow> \<exists>b st1. deleteSteps pid st = (Inr b, st1)"
  by (simp add: deleteSteps_def andThen_def adapterDelete_def adapterDeleteMany_no_fault exI[of _ False])

lemma batchDeletePermissions_no_fault:
  "faults st = [] \<Longrightarrow> \<exists>n st1. batchDeletePermissions hasTransaction ids st = (Inr n, st1)"
  using batchDeleteSteps_no_fault[of st ids]
  by (auto simp: batchDeletePermissions_def catchDelete_def transaction_def)

lemma deletePermission_no_fault:
  "faults st = [] \<Longrightarrow> \<exists>b st1. deletePermission hasTransaction pid st = (Inr b, st1)"
  using deleteSteps_no_fault[of st pid]
  by (auto simp: deletePermission_def catchDelete_def transaction_def)

lemma batchDeletePermissions_final:
  assumes "batchDeletePermissions hasTransaction ids st = (Inr n, st1)"
  shows "tables st1 = withoutPermissions ids (tables st)"
proof (cases "length ids = 0")
  case True
  have "\<not> rowMatches r (WhereIn f [])" for r f
    by (simp split: option.splits)
  then have "withoutPermissions [] (tables st) = tables st"
    by (auto simp: withoutPermissions_def)
  with True assms show ?thesis by (auto simp: batchDeletePermissions_def)
next
  case False
  with assms have "batchDeleteSteps ids st = (Inr n, st1)"
    by (auto simp: batchDeletePermissions_def dest!: catchDelete_Inr transaction_Inr split: if_splits)
  from batchDeleteSteps_success(1)[OF this] show ?thesis
    by (simp add: afterCascade_withoutPermissions)
qed

lemma deletePermission_final:
  assumes "deletePermission hasTransaction pid st = (Inr b, st3)"
  shows "tables st3 = withoutPermissions [pid] (tables st)"
proof -
  from assms have "deleteSteps pid st = (Inr b, st3)"
    by (auto simp: deletePermission_def dest!: catchDelete_Inr transaction_Inr split: if_splits)
  from deleteSteps_success[OF this] show ?thesis
    by (simp add: afterCascade_withoutPermissions)
qed

lemma batchDeletePermissions_rollback:
  assumes "batchDeletePermissions True ids st = (Inl e, st2)"
  shows "tables st2 = tables st"
proof -
  from assms have ne: "length ids \<noteq> 0" by (auto simp: batchDeletePermissions_def)
  with assms obtain e' where "transaction (batchDeleteSteps ids) st = (Inl e', st2)"
    by (auto simp: batchDeletePermissions_def dest!: catchDelete_Inl)
  then show ?thesis by (rule transaction_Inl)
qed

lemma deletePermission_rollback:
  assumes "deletePermission True pid st = (Inl e, st4)"
  shows "tables st4 = tables st"
proof -
  from assms obtain e' where "transaction (deleteSteps pid) st = (Inl e', st4)"
    by (auto simp: deletePermission_def dest!: catchDelete_Inl)
  then show ?thesis by (rule transaction_Inl)
qed

lemma batchDeletePermissions_success:
  assumes "batchDeletePermissions hasTransaction ids st = (Inr n, st1)"
  shows "cascaded ids st1
      \<and> n = length (filter (\<lambda>r. rowMatches r (WhereIn ''id'' ids)) (tables st ''permission''))"
proof (cases "length ids = 0")
  case True
  have "\<not> rowMatches r (WhereIn f [])" for r f
    by (simp split: option.splits)
  with True assms show ?thesis by (auto simp: batchDeletePermissions_def cascaded_def)
next
  case False
  with assms have "batchDeleteSteps ids st = (Inr n, st1)"
    by (auto simp: batchDeletePermissions_def dest!: catchDelete_Inr transaction_Inr split: if_splits)
  from batchDeleteSteps_success[OF this] show ?thesis
    by (simp add: afterCascade_cascaded)
qed

lemma batchDeletePermissions_failure:
  assumes "batchDeletePermissions hasTransaction ids st = (Inl e, st2)"
  shows "tables st2 ''permission'' = tables st ''permission''"
proof -
  from assms have ne: "length ids \<noteq> 0" by (auto simp: batchDeletePermissions_def)
  with assms obtain e' where
    "(if hasTransaction then transaction (batchDeleteSteps ids) st else batchDeleteSteps ids st)
       = (Inl e', st2)"
    by (auto simp: batchDeletePermissions_def dest!: catchDelete_Inl)
  then show ?thesis
    by (auto dest: transaction_Inl batchDeleteSteps_failure split: if_splits)
qed

lemma deletePermission_success:
  assumes "deletePermission hasTransaction pid st = (Inr b, st3)"
  shows "cascaded [pid] st3"
proof -
  from assms have "deleteSteps pid st = (Inr b, st3)"
    by (auto simp: deletePermission_def dest!: catchDelete_Inr transaction_Inr split: if_splits)
  from deleteSteps_success[OF this] show ?thesis
    by (rule afterCascade_cascaded)
qed

lemma deletePermission_failure:
  assumes "deletePermission hasTransaction pid st = (Inl e, st4)"
  shows "tables st4 ''permission'' = tables st ''permission''"
proof -
  from assms obtain e' where
    "(if hasTransaction then transaction (deleteSteps pid) st else deleteSteps pid st)
       = (Inl e', st4)"
    by (auto simp: deletePermission_def dest!: catchDelete_Inl)
  then show ?thesis
    by (auto dest: transaction_Inl deleteSteps_failure split: if_splits)
qed

section \<open>The claims\<close>

text \<open>
  C1. For every list of canonical rules and every consistent collation of the ids, the
  sorter returns a rearrangement of the list that is ordered by the cascade: source rank
  ascending (member_permission_set 1, member_direct 2, user_permission_set 3,
  user_direct 4), then allow before deny, then specificity ascending (2 for non-empty
  conditions plus 1 for non-empty fields), then the timestamp ascending (updatedAt if
  present, else createdAt), then the ids as the collation orders them.
\<close>

theorem sortPermissionsByPriority_cascade:
  assumes "consistentComparator localeCompare"
  shows "sorted_wrt (cascadeLe localeCompare) (sortPermissionsByPriority localeCompare permissions)
         \<and> mset (sortPermissionsByPriority localeCompare permissions) = mset permissions"
proof -
  have "(\<lambda>a b. comparePriority localeCompare a b \<le> 0) = cascadeLe localeCompare"
    by (intro ext) (simp add: comparePriority_key cascadeLe_key)
  with sortPermissionsByPriority_sorted[OF assms, of permissions]
  show ?thesis by (simp add: sortPermissionsByPriority_def mset_arraySort)
qed

theorem sortPermissionsByPriority_cascade_witness:
  "consistentComparator codeUnitCompare
   \<and> sorted_wrt (cascadeLe codeUnitCompare)
        (sortPermissionsByPriority codeUnitCompare
           [sampleRule ''4'' ''user-direct'' user_direct,
            sampleRule ''1'' ''member-permission-set'' member_permission_set,
            sampleRule ''3'' ''user-permission-set'' user_permission_set,
            sampleRule ''2'' ''member-direct'' member_direct])
   \<and> mset (sortPermissionsByPriority codeUnitCompare
           [sampleRule ''4'' ''user-direct'' user_direct,
            sampleRule ''1'' ''member-permission-set'' member_permission_set,
            sampleRule ''3'' ''user-permission-set'' user_permission_set,
            sampleRule ''2'' ''member-direct'' member_direct])
     = mset [sampleRule ''4'' ''user-direct'' user_direct,
            sampleRule ''1'' ''member-permission-set'' member_permission_set,
            sampleRule ''3'' ''user-permission-set'' user_permission_set,
            sampleRule ''2'' ''member-direct'' member_direct]"
  using sortPermissionsByPriority_cascade[OF codeUnitCompare_consistent] codeUnitCompare_consistent
  by blast

text \<open>The source ranking of the specification, one rule per source, evaluated.\<close>

lemma source_ranking_example:
  "map source (sortPermissionsByPriority codeUnitCompare
     [sampleRule ''4'' ''user-direct'' user_direct,
      sampleRule ''1'' ''member-permission-set'' member_permission_set,
      sampleRule ''3'' ''user-permission-set'' user_permission_set,
      sampleRule ''2'' ''member-direct'' member_direct])
   = [member_permission_set, member_direct, user_permission_set, user_direct]"
  by code_simp

text \<open>
  C2, as stated, fails: two rules that agree on source, inverted, specificity, timestamp
  and id but differ elsewhere (here in the name) compare equal, the sort is stable, and
  so they come out in the order they went in.
\<close>

theorem sortPermissionsByPriority_input_order_counterexample:
  "mset [sampleRule ''1'' ''second'' user_direct, sampleRule ''1'' ''first'' user_direct]
     = mset [sampleRule ''1'' ''first'' user_direct, sampleRule ''1'' ''second'' user_direct]
   \<and> sortPermissionsByPriority codeUnitCompare
        [sampleRule ''1'' ''second'' user_direct, sampleRule ''1'' ''first'' user_direct]
     \<noteq> sortPermissionsByPriority codeUnitCompare
        [sampleRule ''1'' ''first'' user_direct, sampleRule ''1'' ''second'' user_direct]"
proof -
  have "sortPermissionsByPriority codeUnitCompare
        [sampleRule ''1'' ''second'' user_direct, sampleRule ''1'' ''first'' user_direct]
        = [sampleRule ''1'' ''second'' user_direct, sampleRule ''1'' ''first'' user_direct]"
    by code_simp
  moreover have "sortPermissionsByPriority codeUnitCompare
        [sampleRule ''1'' ''first'' user_direct, sampleRule ''1'' ''second'' user_direct]
        = [sampleRule ''1'' ''first'' user_direct, sampleRule ''1'' ''second'' user_direct]"
    by code_simp
  moreover have "sampleRule ''1'' ''second'' user_direct \<noteq> sampleRule ''1'' ''first'' user_direct"
    by (simp add: sampleRule_def)
  ultimately show ?thesis by (simp add: add_mset_commute)
qed

text \<open>
  C2, amended. For every consistent collation of the ids: sorting a sorted list changes
  nothing; and for every rearrangement \<open>P\<close> of a list \<open>R\<close> in which the comparison
  function returns 0 only on equal rules (no two different rules share source, inverted,
  specificity, timestamp and id), sorting \<open>P\<close> and sorting \<open>R\<close> give the same list.
\<close>

theorem sortPermissionsByPriority_order_independent:
  assumes "consistentComparator localeCompare"
  shows "sortPermissionsByPriority localeCompare (sortPermissionsByPriority localeCompare R)
           = sortPermissionsByPriority localeCompare R
         \<and> (mset P = mset R
              \<and> (\<forall>a\<in>set R. \<forall>b\<in>set R. comparePriority localeCompare a b = 0 \<longrightarrow> a = b)
            \<longrightarrow> sortPermissionsByPriority localeCompare P = sortPermissionsByPriority localeCompare R)"
proof (intro conjI impI)
  show "sortPermissionsByPriority localeCompare (sortPermissionsByPriority localeCompare R)
           = sortPermissionsByPriority localeCompare R"
    using sortPermissionsByPriority_sorted[OF assms, of R]
    unfolding sortPermissionsByPriority_def by (rule arraySort_sorted_id)
next
  assume h: "mset P = mset R
      \<and> (\<forall>a\<in>set R. \<forall>b\<in>set R. comparePriority localeCompare a b = 0 \<longrightarrow> a = b)"
  let ?le = "\<lambda>a b. comparePriority localeCompare a b \<le> 0"
  show "sortPermissionsByPriority localeCompare P = sortPermissionsByPriority localeCompare R"
  proof (rule sorted_wrt_unique[where le = ?le])
    show "sorted_wrt ?le (sortPermissionsByPriority localeCompare P)"
      by (rule sortPermissionsByPriority_sorted[OF assms])
    show "sorted_wrt ?le (sortPermissionsByPriority localeCompare R)"
      by (rule sortPermissionsByPriority_sorted[OF assms])
    show "mset (sortPermissionsByPriority localeCompare P) = mset (sortPermissionsByPriority localeCompare R)"
      using h by (simp add: sortPermissionsByPriority_def mset_arraySort)
    fix a b
    assume "a \<in> set (sortPermissionsByPriority localeCompare P)"
      "b \<in> set (sortPermissionsByPriority localeCompare P)"
    then have "a \<in> set R" "b \<in> set R"
      using h by (metis mset_arraySort mset_eq_setD sortPermissionsByPriority_def)+
    moreover assume "?le a b" "?le b a"
    then have "comparePriority localeCompare a b = 0"
      using consistent_antisym[OF comparePriority_consistent[OF assms]] by blast
    ultimately show "a = b" using h by blast
  qed
qed

theorem sortPermissionsByPriority_order_independent_witness:
  "consistentComparator codeUnitCompare
   \<and> mset [sampleRule ''b'' ''newer'' user_direct, sampleRule ''a'' ''older'' member_direct]
       = mset [sampleRule ''a'' ''older'' member_direct, sampleRule ''b'' ''newer'' user_direct]
   \<and> comparePriority codeUnitCompare (sampleRule ''a'' ''older'' member_direct)
         (sampleRule ''b'' ''newer'' user_direct) \<noteq> 0
   \<and> comparePriority codeUnitCompare (sampleRule ''b'' ''newer'' user_direct)
         (sampleRule ''a'' ''older'' member_direct) \<noteq> 0
   \<and> sortPermissionsByPriority codeUnitCompare
        [sampleRule ''b'' ''newer'' user_direct, sampleRule ''a'' ''older'' member_direct]
     = sortPermissionsByPriority codeUnitCompare
        [sampleRule ''a'' ''older'' member_direct, sampleRule ''b'' ''newer'' user_direct]
   \<and> sortPermissionsByPriority codeUnitCompare
        (sortPermissionsByPriority codeUnitCompare
           [sampleRule ''a'' ''older'' member_direct, sampleRule ''b'' ''newer'' user_direct])
     = sortPermissionsByPriority codeUnitCompare
        [sampleRule ''a'' ''older'' member_direct, sampleRule ''b'' ''newer'' user_direct]"
proof -
  let ?R = "[sampleRule ''a'' ''older'' member_direct, sampleRule ''b'' ''newer'' user_direct]"
  let ?P = "[sampleRule ''b'' ''newer'' user_direct, sampleRule ''a'' ''older'' member_direct]"
  have perm: "mset ?P = mset ?R" by (simp add: add_mset_commute)
  have ties: "\<forall>a\<in>set ?R. \<forall>b\<in>set ?R. comparePriority codeUnitCompare a b = 0 \<longrightarrow> a = b"
    by code_simp
  have ne: "comparePriority codeUnitCompare (sampleRule ''a'' ''older'' member_direct)
         (sampleRule ''b'' ''newer'' user_direct) \<noteq> 0"
    "comparePriority codeUnitCompare (sampleRule ''b'' ''newer'' user_direct)
         (sampleRule ''a'' ''older'' member_direct) \<noteq> 0"
    by code_simp+
  from sortPermissionsByPriority_order_independent[OF codeUnitCompare_consistent, of ?R ?P]
    perm ties ne codeUnitCompare_consistent
  show ?thesis by blast
qed

text \<open>
  C3. At the top level and in the objects nested directly below it the sanitizer does
  what the claim says (\<open>sanitizer_top_levels\<close>, \<open>sanitizer_preserves_safe_keys\<close>).
  One level further down the code breaks it: in an object inside a nested object it
  keeps exactly the dangerous keys with a primitive value and drops the safe ones. The
  context \<^verbatim>\<open>{user: {profile: {constructor: "x", name: "n"}}}\<close> is reported valid and
  sanitized to \<^verbatim>\<open>{user: {profile: {constructor: "x"}}}\<close>.
\<close>

theorem validateAndSanitizeContext_keeps_inner_dangerous_key:
  "validateAndSanitizeContext
     [(''user'', JObj [(''profile'', JObj [(''constructor'', JStr ''x''), (''name'', JStr ''n'')])])]
   = \<lparr>errors = [], isValid = True,
      sanitizedContext = [(''user'', JObj [(''profile'', JObj [(''constructor'', JStr ''x'')])])]\<rparr>"
  by code_simp

text \<open>
  C4. Interpolation returns a value for every tree, whatever the template engine does
  (\<open>interpolate_total\<close>), and a string the validator rejects is returned as it is
  (\<open>secureInterpolateObject_rejected_string\<close>). But the validator does not reject every
  marker of a blacklisted variable. It takes as the name everything between the first
  two opening braces and the closing braces, so in \<^verbatim>\<open>{{{process.env}}}\<close>, which contains
  \<^verbatim>\<open>{{process.env}}\<close>, it reads the name \<^verbatim>\<open>{process.env\<close>, and in \<^verbatim>\<open>{{&process.env}}\<close> the
  name \<^verbatim>\<open>&process.env\<close>; no check fires on either. The string is handed to the template
  engine, for which both forms are the unescaped variable \<^verbatim>\<open>process.env\<close>, and what the
  engine renders takes the place of the string: with the context
  \<^verbatim>\<open>{process: {env: "secret"}}\<close> the conditions \<^verbatim>\<open>{malicious: "{{{process.env}}}"}\<close>
  become \<^verbatim>\<open>{malicious: "secret"}\<close>.
\<close>

theorem secureInterpolateObject_substitutes_blacklisted_variable:
  "strIncludes ''{{{process.env}}}'' ''{{process.env}}''
   \<and> validateTemplateVariables ''{{{process.env}}}'' = []
   \<and> validateTemplateVariables ''{{&process.env}}'' = []
   \<and> (\<forall>render ctx.
         secureInterpolateObject render (JStr ''{{{process.env}}}'') ctx
           = (case render ''{{{process.env}}}'' ctx of
                Inr (JStr interpolated) \<Rightarrow> Inr (JStr interpolated)
              | Inr _ \<Rightarrow> Inr (JStr ''{{{process.env}}}'')
              | Inl error \<Rightarrow> Inr (JStr ''{{{process.env}}}'')))
   \<and> secureInterpolateObject (\<lambda>t c. Inr (JStr ''secret''))
         (JObj [(''malicious'', JStr ''{{{process.env}}}'')])
         [(''process'', JObj [(''env'', JStr ''secret'')])]
       = Inr (JObj [(''malicious'', JStr ''secret'')])"
proof -
  have inc: "strIncludes ''{{{process.env}}}'' ''{{process.env}}''"
    and open2: "strIncludes ''{{{process.env}}}'' ''{{''"
    and v1: "validateTemplateVariables ''{{{process.env}}}'' = []"
    and v2: "validateTemplateVariables ''{{&process.env}}'' = []"
    by code_simp+
  have handed: "secureInterpolateObject render (JStr ''{{{process.env}}}'') ctx
           = (case render ''{{{process.env}}}'' ctx of
                Inr (JStr interpolated) \<Rightarrow> Inr (JStr interpolated)
              | Inr _ \<Rightarrow> Inr (JStr ''{{{process.env}}}'')
              | Inl error \<Rightarrow> Inr (JStr ''{{{process.env}}}''))" for render ctx
    unfolding secureInterpolateObject.simps using open2 v1 by simp
  have "secureInterpolateObject (\<lambda>t c. Inr (JStr ''secret''))
         (JObj [(''malicious'', JStr ''{{{process.env}}}'')])
         [(''process'', JObj [(''env'', JStr ''secret'')])]
       = Inr (JObj [(''malicious'', JStr ''secret'')])"
    by code_simp
  with inc v1 v2 handed show ?thesis by blast
qed

text \<open>
  The two examples of the test suite, with a template engine that renders every
  template to \<^verbatim>\<open>123\<close>: an accepted variable is substituted, \<^verbatim>\<open>{{process.env}}\<close> is
  left as it is; so is a marker padded with no-break spaces.
\<close>

lemma interpolation_examples:
  "secureInterpolateObject (\<lambda>t c. Inr (JStr ''123'')) (JObj [(''authorId'', JStr ''{{user.id}}'')])
     [(''user'', JObj [(''id'', JStr ''123'')])] = Inr (JObj [(''authorId'', JStr ''123'')])"
  "secureInterpolateObject (\<lambda>t c. Inr (JStr ''123'')) (JObj [(''malicious'', JStr ''{{process.env}}'')])
     [(''process'', JObj [(''env'', JStr ''secret'')])]
   = Inr (JObj [(''malicious'', JStr ''{{process.env}}'')])"
  "secureInterpolateObject (\<lambda>t c. Inr (JStr ''123''))
     (JStr (''{{'' @ [CHR 0xA0] @ ''process.env'' @ [CHR 0xA0] @ ''}}'')) []
   = Inr (JStr (''{{'' @ [CHR 0xA0] @ ''process.env'' @ [CHR 0xA0] @ ''}}''))"
  by code_simp+

text \<open>
  C5. When the request carries a non-empty list of fields, the result \<^verbatim>\<open>allowed\<close> is
  true exactly when the evaluator allows the action on the subject for every field of the
  list, each asked on its own.
\<close>

theorem checkPermissionAllowed_every_field:
  "requestedFields = Some fs \<and> fs \<noteq> [] \<longrightarrow>
     checkPermissionAllowed can act subjectInstance requestedFields
       = (\<forall>field\<in>set fs. can act subjectInstance (Some field))"
  by (auto simp: checkPermissionAllowed_def list_all_iff)

theorem checkPermissionAllowed_every_field_witness:
  "Some [''title'', ''content''] = Some [''title'', ''content''] \<and> [''title'', ''content''] \<noteq> []
   \<and> (\<lambda>a s f. f \<noteq> Some ''content'') ''read'' ''post'' (Some ''title'')
   \<and> \<not> checkPermissionAllowed (\<lambda>a s f. f \<noteq> Some ''content'') ''read'' ''post''
         (Some [''title'', ''content''])"
  using checkPermissionAllowed_every_field[of "Some [''title'', ''content'']" "[''title'', ''content'']"
      "\<lambda>a s f. f \<noteq> Some ''content''" "''read''" "''post''"]
  by simp

text \<open>
  C6. The claim is that every store error other than a duplicate is raised again. The
  code absorbs more: a foreign-key violation reported by the driver as
  \<^verbatim>\<open>FOREIGN KEY constraint failed\<close> (assigning a member that does not exist) is taken for
  a duplicate, because its message contains \<^verbatim>\<open>constraint\<close>; the assignment returns
  normally, with and without a transaction, and no row is written.
\<close>

theorem handleIdempotentJunctionAssignment_absorbs_foreign_key_failure:
  "isDuplicateKeyError (ErrorObject ''FOREIGN KEY constraint failed'')
   \<and> fst (handleIdempotentJunctionAssignment True ''memberPermission''
            [(''memberId'', ''ghost''), (''permissionId'', ''p1'')]
            \<lparr>tables = (\<lambda>m. []), faults = [Some (ErrorObject ''FOREIGN KEY constraint failed'')]\<rparr>)
       = Inr ()
   \<and> fst (handleIdempotentJunctionAssignment False ''memberPermission''
            [(''memberId'', ''ghost''), (''permissionId'', ''p1'')]
            \<lparr>tables = (\<lambda>m. []), faults = [Some (ErrorObject ''FOREIGN KEY constraint failed'')]\<rparr>)
       = Inr ()
   \<and> tables (snd (handleIdempotentJunctionAssignment False ''memberPermission''
            [(''memberId'', ''ghost''), (''permissionId'', ''p1'')]
            \<lparr>tables = (\<lambda>m. []), faults = [Some (ErrorObject ''FOREIGN KEY constraint failed'')]\<rparr>))
         ''memberPermission'' = []"
  by code_simp

text \<open>
  What the handler does with the outcome of the insert, in general: success and an error
  that \<open>isDuplicateKeyError\<close> accepts both return normally, any other error is raised
  again.
\<close>

lemma handleIdempotentJunctionAssignment_outcome:
  "fst (handleIdempotentJunctionAssignment hasTransaction model data st)
     = (case fst (adapterCreate model data st) of
          Inr created \<Rightarrow> Inr ()
        | Inl error \<Rightarrow> if isDuplicateKeyError error then Inr () else Inl error)"
  by (auto simp: handleIdempotentJunctionAssignment_def transaction_def Let_def
      split: prod.splits sum.splits)

text \<open>
  C7. Deleting a batch of permissions, or one permission, completes when no store call
  fails. When it completes, the tables are the initial ones without the permissions: the
  three junction tables (user assignments, member assignments, links to permission sets)
  have lost exactly the rows that refer to a deleted id, the permission table exactly the
  rows that carry one, and nothing else has changed; so no junction row refers to a
  deleted id and no parent row is left. The batch returns the number of permission rows
  it removed. The parent rows go last: when the deletion fails, the permission table is
  as it was, and inside a transaction so is every table.
\<close>

theorem cascade_delete_complete:
  "(faults st = [] \<longrightarrow>
      (\<exists>n st1. batchDeletePermissions hasTransaction ids st = (Inr n, st1))
      \<and> (\<exists>b st3. deletePermission hasTransaction pid st = (Inr b, st3)))
   \<and> (batchDeletePermissions hasTransaction ids st = (Inr n, st1) \<longrightarrow>
      tables st1 = withoutPermissions ids (tables st)
      \<and> cascaded ids st1
      \<and> n = length (filter (\<lambda>r. rowMatches r (WhereIn ''id'' ids)) (tables st ''permission''))
      \<and> int n = int (length (tables st ''permission'')) - int (length (tables st1 ''permission'')))
   \<and> (batchDeletePermissions hasTransaction ids st = (Inl e, st2) \<longrightarrow>
      tables st2 ''permission'' = tables st ''permission''
      \<and> (hasTransaction \<longrightarrow> tables st2 = tables st))
   \<and> (deletePermission hasTransaction pid st = (Inr b, st3) \<longrightarrow>
      tables st3 = withoutPermissions [pid] (tables st) \<and> cascaded [pid] st3)
   \<and> (deletePermission hasTransaction pid st = (Inl e', st4) \<longrightarrow>
      tables st4 ''permission'' = tables st ''permission''
      \<and> (hasTransaction \<longrightarrow> tables st4 = tables st))"
proof -
  have 0: "faults st = [] \<longrightarrow>
      (\<exists>n st1. batchDeletePermissions hasTransaction ids st = (Inr n, st1))
      \<and> (\<exists>b st3. deletePermission hasTransaction pid st = (Inr b, st3))"
    using batchDeletePermissions_no_fault deletePermission_no_fault by blast
  have 1: "batchDeletePermissions hasTransaction ids st = (Inr n, st1) \<longrightarrow>
      tables st1 = withoutPermissions ids (tables st)
      \<and> cascaded ids st1
      \<and> n = length (filter (\<lambda>r. rowMatches r (WhereIn ''id'' ids)) (tables st ''permission''))
      \<and> int n = int (length (tables st ''permission'')) - int (length (tables st1 ''permission''))"
  proof
    assume a: "batchDeletePermissions hasTransaction ids st = (Inr n, st1)"
    note f = batchDeletePermissions_final[OF a] and c = batchDeletePermissions_success[OF a]
    have t: "tables st1 ''permission''
        = filter (\<lambda>r. \<not> rowMatches r (WhereIn ''id'' ids)) (tables st ''permission'')"
      by (simp add: f withoutPermissions_def junctionModels_def)
    have "length (filter (\<lambda>r. rowMatches r (WhereIn ''id'' ids)) (tables st ''permission''))
        + length (filter (\<lambda>r. \<not> rowMatches r (WhereIn ''id'' ids)) (tables st ''permission''))
        = length (tables st ''permission'')"
      by (rule sum_length_filter_compl)
    moreover from c
    have "n = length (filter (\<lambda>r. rowMatches r (WhereIn ''id'' ids)) (tables st ''permission''))"
      by blast
    ultimately
    have k: "int n = int (length (tables st ''permission'')) - int (length (tables st1 ''permission''))"
      using t by simp
    from f c k show "tables st1 = withoutPermissions ids (tables st)
      \<and> cascaded ids st1
      \<and> n = length (filter (\<lambda>r. rowMatches r (WhereIn ''id'' ids)) (tables st ''permission''))
      \<and> int n = int (length (tables st ''permission'')) - int (length (tables st1 ''permission''))"
      by blast
  qed
  have 2: "batchDeletePermissions hasTransaction ids st = (Inl e, st2) \<longrightarrow>
      tables st2 ''permission'' = tables st ''permission''
      \<and> (hasTransaction \<longrightarrow> tables st2 = tables st)"
    using batchDeletePermissions_failure[of hasTransaction ids st e st2]
      batchDeletePermissions_rollback[of ids st e st2]
    by (cases hasTransaction) simp_all
  have 3: "deletePermission hasTransaction pid st = (Inr b, st3) \<longrightarrow>
      tables st3 = withoutPermissions [pid] (tables st) \<and> cascaded [pid] st3"
    using deletePermission_success deletePermission_final by blast
  have 4: "deletePermission hasTransaction pid st = (Inl e', st4) \<longrightarrow>
      tables st4 ''permission'' = tables st ''permission''
      \<and> (hasTransaction \<longrightarrow> tables st4 = tables st)"
    using deletePermission_failure[of hasTransaction pid st e' st4]
      deletePermission_rollback[of pid st e' st4]
    by (cases hasTransaction) simp_all
  from 0 1 2 3 4 show ?thesis by blast
qed

theorem cascade_delete_complete_witness:
  "faults sampleStore = []
   \<and> batchDeletePermissions True [''p1''] sampleStore
     = (Inr 1, snd (batchDeletePermissions True [''p1''] sampleStore))
   \<and> tables (snd (batchDeletePermissions True [''p1''] sampleStore)) ''permission''
     = [[(''id'', ''p2'')]]
   \<and> tables (snd (batchDeletePermissions True [''p1''] sampleStore)) ''userPermission''
     = [[(''userId'', ''u1''), (''permissionId'', ''p2'')]]
   \<and> tables (snd (batchDeletePermissions True [''p1''] sampleStore)) ''memberPermission'' = []
   \<and> tables (snd (batchDeletePermissions True [''p1''] sampleStore)) ''permissionPermissionSet'' = []
   \<and> tables (snd (batchDeletePermissions True [''p1''] sampleStore)) ''userPermissionSet''
     = [[(''userId'', ''u1''), (''permissionSetId'', ''s1'')]]
   \<and> cascaded [''p1''] (snd (batchDeletePermissions True [''p1''] sampleStore))
   \<and> deletePermission False ''p1'' sampleStore
     = (Inr False, snd (deletePermission False ''p1'' sampleStore))
   \<and> tables (snd (deletePermission False ''p1'' sampleStore)) ''permission'' = [[(''id'', ''p2'')]]
   \<and> cascaded [''p1''] (snd (deletePermission False ''p1'' sampleStore))
   \<and> fst (batchDeletePermissions False [''p1'']
            (sampleStore\<lparr>faults := [None, None, None, Some (ErrorObject ''connection lost'')]\<rparr>))
     = Inl (APIError ''INTERNAL_SERVER_ERROR'' DATABASE_ERROR)
   \<and> tables (snd (batchDeletePermissions False [''p1'']
            (sampleStore\<lparr>faults := [None, None, None, Some (ErrorObject ''connection lost'')]\<rparr>)))
        ''permission''
     = [[(''id'', ''p1'')], [(''id'', ''p2'')]]"
proof -
  let ?b = "batchDeletePermissions True [''p1''] sampleStore"
  let ?d = "deletePermission False ''p1'' sampleStore"
  let ?f = "sampleStore\<lparr>faults := [None, None, None, Some (ErrorObject ''connection lost'')]\<rparr>"
  let ?e = "batchDeletePermissions False [''p1''] ?f"
  have nf: "faults sampleStore = []" by (simp add: sampleStore_def)
  have "fst ?b = Inr 1" by code_simp
  then have b: "?b = (Inr 1, snd ?b)" by (metis prod.collapse)
  have "fst ?d = Inr False" by code_simp
  then have d: "?d = (Inr False, snd ?d)" by (metis prod.collapse)
  have fe: "fst ?e = Inl (APIError ''INTERNAL_SERVER_ERROR'' DATABASE_ERROR)" by code_simp
  then have e: "?e = (Inl (APIError ''INTERNAL_SERVER_ERROR'' DATABASE_ERROR), snd ?e)"
    by (metis prod.collapse)
  have t: "withoutPermissions [''p1''] (tables sampleStore) ''permission'' = [[(''id'', ''p2'')]]"
    "withoutPermissions [''p1''] (tables sampleStore) ''userPermission''
       = [[(''userId'', ''u1''), (''permissionId'', ''p2'')]]"
    "withoutPermissions [''p1''] (tables sampleStore) ''memberPermission'' = []"
    "withoutPermissions [''p1''] (tables sampleStore) ''permissionPermissionSet'' = []"
    "withoutPermissions [''p1''] (tables sampleStore) ''userPermissionSet''
       = [[(''userId'', ''u1''), (''permissionSetId'', ''s1'')]]"
    by code_simp+
  have p: "tables ?f ''permission'' = [[(''id'', ''p1'')], [(''id'', ''p2'')]]"
    by (simp add: sampleStore_def)
  from cascade_delete_complete[where hasTransaction = True and ids = "[''p1'']" and st = sampleStore
      and n = 1 and ?st1.0 = "snd ?b"] b
  have 1: "tables (snd ?b) = withoutPermissions [''p1''] (tables sampleStore)"
    "cascaded [''p1''] (snd ?b)"
    by blast+
  from cascade_delete_complete[where hasTransaction = False and pid = "''p1''" and st = sampleStore
      and b = False and ?st3.0 = "snd ?d"] d
  have 2: "tables (snd ?d) = withoutPermissions [''p1''] (tables sampleStore)"
    "cascaded [''p1''] (snd ?d)"
    by blast+
  from cascade_delete_complete[where hasTransaction = False and ids = "[''p1'']" and st = ?f
      and e = "APIError ''INTERNAL_SERVER_ERROR'' DATABASE_ERROR" and ?st2.0 = "snd ?e"] e
  have 3: "tables (snd ?e) ''permission'' = tables ?f ''permission''"
    by blast
  from nf b d fe t p 1 2 3 show ?thesis by simp
qed

text \<open>
  C8. Flattening a grouped record map deduplicates by id, first occurrence winning:
  in the output every id occurs at most once, the ids of the output are exactly the ids
  of the input, and for every id the entry kept is the first one that carries it in
  iteration order (the groups in property order, each group front to back).
\<close>

theorem flattenGroupedRecords_first_wins:
  "distinct (map getId (flattenGroupedRecords getId r))
   \<and> getId ` set (flattenGroupedRecords getId r) = getId ` set (concat (objectValues r))
   \<and> (\<forall>k. find (\<lambda>y. getId y = k) (flattenGroupedRecords getId r)
             = find (\<lambda>y. getId y = k) (concat (objectValues r)))"
  by (simp add: flattenGroupedRecords_keptItems keptItems_distinct keptItems_ids keptItems_find)

theorem flattenGroupedRecords_first_wins_witness:
  "distinct (map fst (flattenGroupedRecords fst
     [(''set1'', [(''p1'', ''from set1''), (''p2'', ''from set1'')]),
      (''set2'', [(''p1'', ''from set2''), (''p3'', ''from set2'')])]))
   \<and> find (\<lambda>y. fst y = ''p1'') (flattenGroupedRecords fst
     [(''set1'', [(''p1'', ''from set1''), (''p2'', ''from set1'')]),
      (''set2'', [(''p1'', ''from set2''), (''p3'', ''from set2'')])])
     = Some (''p1'', ''from set1'')"
  using flattenGroupedRecords_first_wins[of fst
     "[(''set1'', [(''p1'', ''from set1''), (''p2'', ''from set1'')]),
       (''set2'', [(''p1'', ''from set2''), (''p3'', ''from set2'')])]"]
  by (simp add: objectValues_def)

text \<open>A permission linked into two sets is kept once, as the first set has it.\<close>

lemma flattenGroupedRecords_example:
  "flattenGroupedRecords fst
     [(''set1'', [(''p1'', ''from set1''), (''p2'', ''from set1'')]),
      (''set2'', [(''p1'', ''from set2''), (''p3'', ''from set2'')])]
   = [(''p1'', ''from set1''), (''p2'', ''from set1''), (''p3'', ''from set2'')]"
  by code_simp

text \<open>
  C9, as stated, fails for a chunk size that is not an integer: with the chunk size 0.5
  the counter takes the values 0, 0.5, 1, ... and every other slice is empty.
\<close>

theorem chunkArray_fractional_size_counterexample:
  "numLess (Finite 0) (Finite (1 / 2))
   \<and> chunkArray [1, 2, 3 :: nat] (Finite (1 / 2)) = Some (Inr [[], [1], [], [2], [], [3]])
   \<and> [] \<in> set [[], [1], [], [2], [], [3 :: nat]]"
proof -
  have "chunkArray [1, 2, 3 :: nat] (Finite (1 / 2)) = Some (Inr [[], [1], [], [2], [], [3]])"
    by code_simp
  then show ?thesis by simp
qed

text \<open>
  C9, amended. For every array and every integral chunk size \<open>n > 0\<close> the chunker
  returns, and its chunks concatenate to the array, are non-empty, are at most \<open>n\<close>
  long, and all but the last are exactly \<open>n\<close> long; with the chunk size \<^verbatim>\<open>Infinity\<close> a
  non-empty array is its own single chunk; the empty array gives no chunk for any chunk
  size; a non-empty array with a chunk size \<open>\<le> 0\<close> raises.
\<close>

theorem chunkArray_partition:
  "(0 < n \<longrightarrow> (\<exists>cs. chunkArray a (Finite (of_int n)) = Some (Inr cs) \<and> concat cs = a
        \<and> (\<forall>c\<in>set cs. c \<noteq> [] \<and> int (length c) \<le> n)
        \<and> (\<forall>c\<in>set (butlast cs). int (length c) = n)))
   \<and> (a \<noteq> [] \<longrightarrow> chunkArray a PosInfinity = Some (Inr [a]))
   \<and> chunkArray [] q = Some (Inr [])
   \<and> (a \<noteq> [] \<and> numLessEq q (Finite 0) \<longrightarrow>
        chunkArray a q = Some (Inl (ErrorObject ''Chunk size must be greater than 0'')))"
proof (intro conjI impI)
  assume n: "0 < n"
  from chunkLoop_returns[OF n, of 0 a "[]"]
  obtain cs where "chunkLoop a (Finite (of_int n)) (Finite 0) [] = Some cs" "concat cs = a"
    "\<forall>c\<in>set cs. c \<noteq> [] \<and> int (length c) \<le> n" "\<forall>c\<in>set (butlast cs). int (length c) = n"
    by auto
  then show "\<exists>cs. chunkArray a (Finite (of_int n)) = Some (Inr cs) \<and> concat cs = a
        \<and> (\<forall>c\<in>set cs. c \<noteq> [] \<and> int (length c) \<le> n)
        \<and> (\<forall>c\<in>set (butlast cs). int (length c) = n)"
    using n by (cases "a = []") (auto simp: chunkArray_def)
next
  assume "a \<noteq> []"
  then show "chunkArray a PosInfinity = Some (Inr [a])"
    by (simp add: chunkArray_def chunkLoop_infinite_size)
qed (simp_all add: chunkArray_def)

theorem chunkArray_partition_witness:
  "(0 :: int) < 2
   \<and> (\<exists>cs. chunkArray [1, 2, 3, 4, 5 :: nat] (Finite (of_int 2)) = Some (Inr cs)
        \<and> concat cs = [1, 2, 3, 4, 5]
        \<and> (\<forall>c\<in>set cs. c \<noteq> [] \<and> int (length c) \<le> 2)
        \<and> (\<forall>c\<in>set (butlast cs). int (length c) = 2))
   \<and> [7 :: nat] \<noteq> []
   \<and> chunkArray [7 :: nat] PosInfinity = Some (Inr [[7]])
   \<and> numLessEq (Finite (- 1 / 2)) (Finite 0)
   \<and> chunkArray [7 :: nat] (Finite (- 1 / 2))
     = Some (Inl (ErrorObject ''Chunk size must be greater than 0''))"
proof -
  have pos: "(0 :: int) < 2" and nonpos: "numLessEq (Finite (- 1 / 2)) (Finite 0)"
    and ne: "[7 :: nat] \<noteq> []"
    by simp_all
  from pos chunkArray_partition[of 2 "[1, 2, 3, 4, 5 :: nat]"]
  have "\<exists>cs. chunkArray [1, 2, 3, 4, 5 :: nat] (Finite (of_int 2)) = Some (Inr cs)
        \<and> concat cs = [1, 2, 3, 4, 5]
        \<and> (\<forall>c\<in>set cs. c \<noteq> [] \<and> int (length c) \<le> 2)
        \<and> (\<forall>c\<in>set (butlast cs). int (length c) = 2)"
    by blast
  moreover from nonpos ne chunkArray_partition[of _ "[7 :: nat]" "Finite (- 1 / 2)"]
  have "chunkArray [7 :: nat] PosInfinity = Some (Inr [[7]])"
    "chunkArray [7 :: nat] (Finite (- 1 / 2))
       = Some (Inl (ErrorObject ''Chunk size must be greater than 0''))"
    by blast+
  ultimately show ?thesis using pos nonpos ne by blast
qed

text \<open>
  The chunker on an integral and a fractional chunk size, on \<^verbatim>\<open>NaN\<close> and on the infinities.
\<close>

lemma chunkArray_example:
  "chunkArray [1, 2, 3, 4, 5 :: nat] (Finite 2) = Some (Inr [[1, 2], [3, 4], [5]])"
  "chunkArray [1, 2, 3, 4, 5, 6, 7 :: nat] (Finite (5 / 2)) = Some (Inr [[1, 2], [3, 4, 5], [6, 7]])"
  "chunkArray [1, 2, 3 :: nat] NaN = Some (Inr [[]])"
  "chunkArray [1, 2, 3 :: nat] PosInfinity = Some (Inr [[1, 2, 3]])"
  "chunkArray [1, 2, 3 :: nat] NegInfinity
     = Some (Inl (ErrorObject ''Chunk size must be greater than 0''))"
  "chunkArray ([] :: nat list) NaN = Some (Inr [])"
  by code_simp+

text \<open>
  C10. Interpolating the conditions of a rule changes at most its conditions: the result
  is the rule with some conditions put in their place, and a rule without conditions is
  returned as it is.
\<close>

theorem interpolateConditions_frame:
  "interpolateConditions render rule ctx
     = rule\<lparr>conditions := conditions (interpolateConditions render rule ctx)\<rparr>
   \<and> (conditions rule = None \<longrightarrow> interpolateConditions render rule ctx = rule)"
  by (auto simp: interpolateConditions_def split: option.splits sum.splits)

theorem interpolateConditions_frame_witness:
  "conditions (sampleRule ''1'' ''test'' user_direct) = None
   \<and> interpolateConditions (\<lambda>t c. Inr (JStr ''123'')) (sampleRule ''1'' ''test'' user_direct)
        [(''user'', JObj [(''id'', JStr ''123'')])]
     = sampleRule ''1'' ''test'' user_direct"
proof -
  have "conditions (sampleRule ''1'' ''test'' user_direct) = None"
    by (simp add: sampleRule_def)
  with interpolateConditions_frame[of "\<lambda>t c. Inr (JStr ''123'')" "sampleRule ''1'' ''test'' user_direct"
      "[(''user'', JObj [(''id'', JStr ''123'')])]"]
  show ?thesis by blast
qed


end
